theory Spec2Isabelle
  imports Main "HOL-Library.AList" "HOL-Library.Char_ord" "HOL-Library.List_Lexorder"
begin

section \<open>Values, dictionaries and schemas\<close>

text \<open>
  Rows, keys and index buckets are JavaScript values (\<open>any\<close> in the source). Numbers are
  modelled by integers; \<open>NaN\<close>, fractions, dates and functions are left out.
\<close>

datatype jsval =
    JUndefined
  | JNull
  | JBool bool
  | JNum int
  | JStr string
  | JArr "jsval list"
  | JObj "(string \<times> jsval) list"

text \<open>JavaScript truthiness, as tested by \<open>if (v)\<close>, \<open>!v\<close> and \<open>_.compact\<close>.\<close>

fun truthy :: "jsval \<Rightarrow> bool" where
  "truthy JUndefined = False"
| "truthy JNull = False"
| "truthy (JBool b) = b"
| "truthy (JNum n) = (n \<noteq> 0)"
| "truthy (JStr s) = (s \<noteq> [])"
| "truthy (JArr xs) = True"
| "truthy (JObj fs) = True"

text \<open>
  A \<open>_.Dictionary<T>\<close> is a plain object used as a map: its own properties in insertion
  order. Assigning an existing key keeps its position, assigning a new key appends it,
  \<open>delete\<close> removes it. The index-first enumeration of integer-like keys and the
  array-like treatment by \<open>_.each\<close> of an object with a numeric \<open>length\<close> are not
  modelled. The members a plain object inherits from \<open>Object.prototype\<close> are modelled
  for the two \<open>_stores\<close> objects, whose keys are store names chosen by the caller (see
  \<open>internal_getStore\<close> and \<open>stores_lookup\<close>), and not for the dictionaries of rows, whose
  keys are serialized keys. Strings are compared
  character by character (\<open>Char_ord\<close>, \<open>List_Lexorder\<close>), as \<open><\<close>, \<open>>\<close> and the default
  \<open>sort()\<close> do on JavaScript strings.
\<close>

type_synonym 'v dictionary = "(string \<times> 'v) list"

definition dict_set :: "string \<Rightarrow> 'v \<Rightarrow> 'v dictionary \<Rightarrow> 'v dictionary" where
  "dict_set k v d = AList.update k v d"

definition dict_delete :: "string \<Rightarrow> 'v dictionary \<Rightarrow> 'v dictionary" where
  "dict_delete k d = AList.delete k d"

definition dict_keys :: "'v dictionary \<Rightarrow> string list" where
  "dict_keys d = map fst d"

text \<open>\<open>d[k]\<close> on a dictionary of values: a missing key reads as \<open>undefined\<close>.\<close>

definition dict_get :: "jsval dictionary \<Rightarrow> string \<Rightarrow> jsval" where
  "dict_get d k = (case map_of d k of None \<Rightarrow> JUndefined | Some v \<Rightarrow> v)"

datatype keyPath = KeyPath string | KeyPaths "string list"

record indexSchema =
  ix_name :: string
  ix_keyPath :: keyPath
  ix_fullText :: bool
  ix_multiEntry :: bool

record storeSchema =
  st_name :: string
  st_primaryKeyPath :: keyPath
  st_indexes :: "indexSchema list"

datatype error =
    TransactionClosed
  | NotFound string
  | KeySerializationError string
  | TypeError string

text \<open>
  \<open>TransactionClosed\<close> is the rejection \<open>'InMemoryTransaction already closed'\<close>;
  \<open>NotFound\<close> carries the message of the \<open>Error\<close> thrown by \<open>getStore\<close>;
  \<open>KeySerializationError\<close> is whatever the key helpers throw; \<open>TypeError\<close> is what
  JavaScript throws when a method is called on a value that has no such method or a
  property is read from \<open>undefined\<close>.

  The key helpers (\<open>NoSqlProviderUtils\<close>) and the tokenizer (\<open>FullTextSearchHelpers\<close>) are
  collaborators whose code is not part of \<open>InMemoryProvider.ts\<close>; the provider is
  parameterised over them.
\<close>

record codec =
  serializeKeyToString :: "jsval \<Rightarrow> keyPath \<Rightarrow> error + string"
  formListOfSerializedKeys :: "jsval \<Rightarrow> keyPath \<Rightarrow> error + string list"
  getSerializedKeyForKeypath :: "jsval \<Rightarrow> keyPath \<Rightarrow> error + string"
  getValueForSingleKeypath :: "jsval \<Rightarrow> keyPath \<Rightarrow> jsval"
  arrayify :: "jsval \<Rightarrow> jsval list"
  getFullTextIndexWordsForItem :: "keyPath \<Rightarrow> jsval \<Rightarrow> error + jsval list"

section \<open>Objects of the provider\<close>

type_synonym addr = nat
type_synonym tid = nat
type_synonym sid = nat

text \<open>\<open>StoreData\<close>: the schema and a reference to the committed row dictionary.\<close>

record storeData =
  sd_schema :: storeSchema
  sd_data :: addr

text \<open>
  The \<open>_stores\<close> object of the provider and that of a transaction are plain objects
  (\<open>{}\<close>) indexed by store names. Reading \<open>o[name]\<close> gives the own property of that name
  if there is one, and otherwise the member of that name that the object inherits from
  its prototype. The prototype of \<open>{}\<close> is \<open>Object.prototype\<close>, whose members are the
  functions below and the accessor \<open>__proto__\<close>, which reads as the prototype itself; they
  are all truthy. Assigning \<open>o[name] = v\<close> creates or overwrites an own property, except
  for \<open>__proto__\<close>: that assignment makes the object \<open>v\<close> the prototype of \<open>o\<close> and
  creates no own property.
\<close>

definition object_prototype_names :: "string list" where
  "object_prototype_names =
     [''constructor'', ''__defineGetter__'', ''__defineSetter__'', ''hasOwnProperty'',
      ''__lookupGetter__'', ''__lookupSetter__'', ''isPrototypeOf'', ''propertyIsEnumerable'',
      ''toString'', ''valueOf'', ''__proto__'', ''toLocaleString'']"

text \<open>
  What \<open>this._stores[name]\<close> reads on the provider: a \<open>StoreData\<close>, a member inherited from
  \<open>Object.prototype\<close>, or, once a \<open>StoreData\<close> has become the prototype, one of its two
  fields \<open>schema\<close> and \<open>data\<close>.
\<close>

datatype member = StoreInfo storeData | InheritedMember string | PrototypeField string

text \<open>
  What \<open>getStore\<close> returns: a store handle; a member that the \<open>_stores\<close> object of the
  transaction inherits from \<open>Object.prototype\<close>, which is no store; or an \<open>InMemoryStore\<close>
  constructed from something that is no \<open>StoreData\<close>, whose \<open>_storeSchema\<close>,
  \<open>_committedStoreData\<close> and \<open>_mergedData\<close> are \<open>undefined\<close>. Such an object is identified
  by a number of its own. It has no rows and no schema: \<open>get\<close>, \<open>getMultiple\<close>, \<open>remove\<close>,
  \<open>openPrimaryKey\<close>, \<open>openIndex\<close> and \<open>put\<close> of an item fail on it before they write
  anything (in an open transaction with a \<open>TypeError\<close>, at
  \<open>this._storeSchema.primaryKeyPath\<close> or \<open>this._storeSchema.indexes\<close>), and \<open>clearAllData\<close>
  finds nothing to clear. So its pending changes stay empty, and its commit and rollback
  touch no dictionary; its methods are not modelled further.
\<close>

datatype store_ref = Handle sid | Inherited string | Malformed nat

text \<open>What the lock helper has been told about a transaction's token.\<close>

datatype outcome = Pending | Completed | Failed string

record inMemoryTransaction =
  openTimer :: "nat option"
  t_stores :: "sid dictionary"
  storeNames :: "string list"
  t_outcome :: outcome
  t_malformed :: "nat dictionary"

record inMemoryStore =
  s_trans :: tid
  pendingCommitDataChanges :: "jsval dictionary option"
  committedStoreData :: addr
  mergedData :: addr
  s_storeSchema :: storeSchema

record inMemoryIndex =
  i_trans :: tid
  i_mergedData :: addr
  i_indexSchema :: "indexSchema option"
  i_keyPath :: keyPath

text \<open>
  The row dictionaries are shared mutable objects, so they live in a heap and are
  referred to by address; transactions and store handles are objects with identity too.
  \<open>timers\<close> holds the handles of the timeouts that are scheduled and not yet fired or
  cleared. \<open>p_stores\<close> holds the own properties of the provider's \<open>_stores\<close> and \<open>p_proto\<close>
  the \<open>StoreData\<close> that has become its prototype, if any; \<open>t_stores\<close> and \<open>t_malformed\<close>
  hold the own properties of a transaction's \<open>_stores\<close>: the store handles, and the
  objects constructed from something that is no \<open>StoreData\<close>. \<open>next_malformed\<close> numbers the
  latter.
\<close>

record world =
  heap :: "jsval dictionary list"
  p_stores :: "storeData dictionary"
  transactions :: "inMemoryTransaction list"
  store_objs :: "inMemoryStore list"
  timers :: "nat list"
  p_proto :: "storeData option"
  next_malformed :: nat

definition new_provider :: world where
  "new_provider =
     \<lparr>heap = [], p_stores = [], transactions = [], store_objs = [], timers = [],
      p_proto = None, next_malformed = 0\<rparr>"

section \<open>InMemoryProvider\<close>

text \<open>
  \<open>open\<close>: one \<open>StoreData\<close> with a fresh empty dictionary per store of the schema,
  assigned to \<open>this._stores[storeSchema.name]\<close>.
\<close>

definition open_store :: "storeSchema \<Rightarrow> world \<Rightarrow> world" where
  "open_store sch w =
     (if st_name sch = ''__proto__''
      then w\<lparr>heap := heap w @ [[]],
             p_proto := Some \<lparr>sd_schema = sch, sd_data = length (heap w)\<rparr>\<rparr>
      else w\<lparr>heap := heap w @ [[]],
             p_stores := dict_set (st_name sch) \<lparr>sd_schema = sch, sd_data = length (heap w)\<rparr> (p_stores w)\<rparr>)"

definition open_provider :: "storeSchema list \<Rightarrow> world \<Rightarrow> world" where
  "open_provider schema w = fold open_store schema w"

text \<open>\<open>internal_getStore\<close>: \<open>this._stores[name]\<close>; \<open>None\<close> stands for \<open>undefined\<close>.\<close>

definition internal_getStore :: "world \<Rightarrow> string \<Rightarrow> member option" where
  "internal_getStore w name =
     (case map_of (p_stores w) name of
        Some sd \<Rightarrow> Some (StoreInfo sd)
      | None \<Rightarrow>
          (case p_proto w of
             None \<Rightarrow>
               if name \<in> set object_prototype_names then Some (InheritedMember name) else None
           | Some sd \<Rightarrow>
               if name = ''__proto__'' then Some (StoreInfo sd)
               else if name = ''schema'' \<or> name = ''data'' then Some (PrototypeField name)
               else if name \<in> set object_prototype_names then Some (InheritedMember name)
               else None))"

text \<open>
  \<open>openTransaction\<close>: the lock helper's admission is outside this file; the token it
  grants carries the requested store names. The constructor of \<open>InMemoryTransaction\<close>
  schedules the commit with \<open>setTimeout\<close>, whose handle is a positive number.
\<close>

definition openTransaction :: "string list \<Rightarrow> bool \<Rightarrow> world \<Rightarrow> tid \<times> world" where
  "openTransaction names writeNeeded w =
     (let h = Suc (length (transactions w))
      in (length (transactions w),
          w\<lparr>transactions := transactions w @
               [\<lparr>openTimer = Some h, t_stores = [], storeNames = names, t_outcome = Pending,
                 t_malformed = []\<rparr>],
            timers := h # timers w\<rparr>))"

section \<open>InMemoryStore: copy-on-write, commit and rollback\<close>

definition checkDataClone :: "sid \<Rightarrow> world \<Rightarrow> world" where
  "checkDataClone s w =
     (let st = store_objs w ! s
      in case pendingCommitDataChanges st of
           Some p \<Rightarrow> w
         | None \<Rightarrow>
             w\<lparr>heap := heap w @ [heap w ! committedStoreData st],
               store_objs := (store_objs w)[s := st\<lparr>pendingCommitDataChanges := Some [],
                                                   mergedData := length (heap w)\<rparr>]\<rparr>)"

definition replay :: "string \<times> jsval \<Rightarrow> jsval dictionary \<Rightarrow> jsval dictionary" where
  "replay kv c = (if snd kv = JUndefined then dict_delete (fst kv) c else dict_set (fst kv) (snd kv) c)"

definition internal_commitPendingData :: "sid \<Rightarrow> world \<Rightarrow> world" where
  "internal_commitPendingData s w =
     (let st = store_objs w ! s;
          c = committedStoreData st;
          h = (case pendingCommitDataChanges st of
                 None \<Rightarrow> heap w
               | Some p \<Rightarrow> (heap w)[c := fold replay p (heap w ! c)])
      in w\<lparr>heap := h,
           store_objs := (store_objs w)[s := st\<lparr>pendingCommitDataChanges := None, mergedData := c\<rparr>]\<rparr>)"

definition internal_rollbackPendingData :: "sid \<Rightarrow> world \<Rightarrow> world" where
  "internal_rollbackPendingData s w =
     (let st = store_objs w ! s
      in w\<lparr>store_objs := (store_objs w)[s := st\<lparr>pendingCommitDataChanges := None,
                                                  mergedData := committedStoreData st\<rparr>]\<rparr>)"

section \<open>InMemoryTransaction\<close>

definition internal_isOpen :: "world \<Rightarrow> tid \<Rightarrow> bool" where
  "internal_isOpen w t = (case openTimer (transactions w ! t) of None \<Rightarrow> False | Some h \<Rightarrow> h \<noteq> 0)"

definition commitTransaction :: "tid \<Rightarrow> world \<Rightarrow> world" where
  "commitTransaction t w = fold internal_commitPendingData (map snd (t_stores (transactions w ! t))) w"

text \<open>
  The timeout callback of the constructor. It runs only while its handle is still
  scheduled: it clears \<open>_openTimer\<close>, commits every store of the transaction and reports
  completion to the lock helper. The objects in \<open>t_malformed\<close> have no pending changes, so
  that their commit and their rollback change nothing of the state modelled here.
\<close>

definition fire :: "tid \<Rightarrow> world \<Rightarrow> world" where
  "fire t w =
     (case openTimer (transactions w ! t) of
        None \<Rightarrow> w
      | Some h \<Rightarrow>
          if h \<notin> set (timers w) then w
          else
            (let w1 = w\<lparr>timers := removeAll h (timers w),
                        transactions := (transactions w)[t := (transactions w ! t)\<lparr>openTimer := None\<rparr>]\<rparr>;
                 w2 = commitTransaction t w1
             in w2\<lparr>transactions := (transactions w2)[t := (transactions w2 ! t)\<lparr>t_outcome := Completed\<rparr>]\<rparr>))"

text \<open>
  \<open>abort\<close>: rolls every store of the transaction back, empties \<open>_stores\<close>, clears the
  timeout and reports the failure. The field \<open>_openTimer\<close> is not assigned.
\<close>

definition abort :: "tid \<Rightarrow> world \<Rightarrow> world" where
  "abort t w =
     (let w1 = fold internal_rollbackPendingData (map snd (t_stores (transactions w ! t))) w;
          tr = transactions w1 ! t
      in w1\<lparr>transactions := (transactions w1)[t := tr\<lparr>t_stores := [], t_malformed := [],
                                    t_outcome := Failed ''InMemoryTransaction Aborted''\<rparr>],
            timers := (case openTimer tr of None \<Rightarrow> timers w1 | Some h \<Rightarrow> removeAll h (timers w1))\<rparr>)"

text \<open>
  \<open>this._stores[storeName]\<close> on a transaction: an own property, which is a store handle
  or an object constructed from something that is no \<open>StoreData\<close>, and otherwise the
  member inherited from \<open>Object.prototype\<close>; \<open>None\<close> stands for \<open>undefined\<close>. Whatever is
  found is an object or a function, and so truthy.
\<close>

definition stores_lookup :: "inMemoryTransaction \<Rightarrow> string \<Rightarrow> store_ref option" where
  "stores_lookup tr name =
     (case map_of (t_stores tr) name of
        Some s \<Rightarrow> Some (Handle s)
      | None \<Rightarrow>
          (case map_of (t_malformed tr) name of
             Some n \<Rightarrow> Some (Malformed n)
           | None \<Rightarrow>
               if name \<in> set object_prototype_names then Some (Inherited name) else None))"

text \<open>
  \<open>getStore\<close>: what the provider's \<open>internal_getStore\<close> returns is tested for truthiness
  only, and handed to the constructor of \<open>InMemoryStore\<close>, which reads its \<open>schema\<close> and
  \<open>data\<close>. A member inherited from \<open>Object.prototype\<close> has neither; nor has the \<open>schema\<close>
  or the \<open>data\<close> of a \<open>StoreData\<close> that has become the prototype (no store handle refers
  to that \<open>data\<close>, which therefore stays empty).
\<close>

definition getStore :: "tid \<Rightarrow> string \<Rightarrow> world \<Rightarrow> (error + store_ref) \<times> world" where
  "getStore t storeName w =
     (let tr = transactions w ! t
      in if storeName \<notin> set (storeNames tr)
         then (Inl (NotFound (''Store not found in transaction-scoped store list: '' @ storeName)), w)
         else
           (case stores_lookup tr storeName of
              Some r \<Rightarrow> (Inr r, w)
            | None \<Rightarrow>
                (case internal_getStore w storeName of
                   None \<Rightarrow> (Inl (NotFound (''Store not found: '' @ storeName)), w)
                 | Some (StoreInfo store) \<Rightarrow>
                     (Inr (Handle (length (store_objs w))),
                      w\<lparr>store_objs := store_objs w @
                           [\<lparr>s_trans = t, pendingCommitDataChanges = None,
                             committedStoreData = sd_data store, mergedData = sd_data store,
                             s_storeSchema = sd_schema store\<rparr>],
                        transactions := (transactions w)
                           [t := tr\<lparr>t_stores := dict_set storeName (length (store_objs w)) (t_stores tr)\<rparr>]\<rparr>)
                 | Some other \<Rightarrow>
                     (Inr (Malformed (next_malformed w)),
                      w\<lparr>next_malformed := Suc (next_malformed w),
                        transactions := (transactions w)
                           [t := tr\<lparr>t_malformed := dict_set storeName (next_malformed w) (t_malformed tr)\<rparr>]\<rparr>))))"

section \<open>InMemoryStore: operations\<close>

definition get :: "codec \<Rightarrow> world \<Rightarrow> sid \<Rightarrow> jsval \<Rightarrow> error + jsval" where
  "get cd w s key =
     (let st = store_objs w ! s
      in if \<not> internal_isOpen w (s_trans st) then Inl TransactionClosed
         else
           (case serializeKeyToString cd key (st_primaryKeyPath (s_storeSchema st)) of
              Inl err \<Rightarrow> Inl err
            | Inr joinedKey \<Rightarrow> Inr (dict_get (heap w ! mergedData st) joinedKey)))"

definition getMultiple :: "codec \<Rightarrow> world \<Rightarrow> sid \<Rightarrow> jsval \<Rightarrow> error + jsval list" where
  "getMultiple cd w s keyOrKeys =
     (let st = store_objs w ! s
      in if \<not> internal_isOpen w (s_trans st) then Inl TransactionClosed
         else
           (case formListOfSerializedKeys cd keyOrKeys (st_primaryKeyPath (s_storeSchema st)) of
              Inl err \<Rightarrow> Inl err
            | Inr joinedKeys \<Rightarrow>
                Inr (filter truthy (map (\<lambda>key. dict_get (heap w ! mergedData st) key) joinedKeys))))"

text \<open>
  One assignment pair of \<open>put\<close>'s loop body and one step of \<open>remove\<close>'s loop. Both run
  after \<open>_checkDataClone\<close>, so the pending dictionary exists.
\<close>

definition put_key :: "sid \<Rightarrow> string \<Rightarrow> jsval \<Rightarrow> world \<Rightarrow> world" where
  "put_key s pk item w =
     (let st = store_objs w ! s
      in w\<lparr>store_objs := (store_objs w)
             [s := st\<lparr>pendingCommitDataChanges := map_option (dict_set pk item) (pendingCommitDataChanges st)\<rparr>],
           heap := (heap w)[mergedData st := dict_set pk item (heap w ! mergedData st)]\<rparr>)"

fun put_items :: "codec \<Rightarrow> sid \<Rightarrow> jsval list \<Rightarrow> world \<Rightarrow> (error + unit) \<times> world" where
  "put_items cd s [] w = (Inr (), w)"
| "put_items cd s (item # items) w =
     (case getSerializedKeyForKeypath cd item (st_primaryKeyPath (s_storeSchema (store_objs w ! s))) of
        Inl err \<Rightarrow> (Inl err, w)
      | Inr pk \<Rightarrow> put_items cd s items (put_key s pk item w))"

definition put :: "codec \<Rightarrow> sid \<Rightarrow> jsval \<Rightarrow> world \<Rightarrow> (error + unit) \<times> world" where
  "put cd s itemOrItems w =
     (if \<not> internal_isOpen w (s_trans (store_objs w ! s)) then (Inl TransactionClosed, w)
      else put_items cd s (arrayify cd itemOrItems) (checkDataClone s w))"

definition remove_key :: "sid \<Rightarrow> string \<Rightarrow> world \<Rightarrow> world" where
  "remove_key s key w =
     (let st = store_objs w ! s
      in w\<lparr>store_objs := (store_objs w)
             [s := st\<lparr>pendingCommitDataChanges := map_option (dict_set key JUndefined) (pendingCommitDataChanges st)\<rparr>],
           heap := (heap w)[mergedData st := dict_delete key (heap w ! mergedData st)]\<rparr>)"

definition remove :: "codec \<Rightarrow> sid \<Rightarrow> jsval \<Rightarrow> world \<Rightarrow> (error + unit) \<times> world" where
  "remove cd s keyOrKeys w =
     (if \<not> internal_isOpen w (s_trans (store_objs w ! s)) then (Inl TransactionClosed, w)
      else
        (let w1 = checkDataClone s w
         in case formListOfSerializedKeys cd keyOrKeys (st_primaryKeyPath (s_storeSchema (store_objs w1 ! s))) of
              Inl err \<Rightarrow> (Inl err, w1)
            | Inr joinedKeys \<Rightarrow> (Inr (), fold (remove_key s) joinedKeys w1)))"

definition clearAllData :: "sid \<Rightarrow> world \<Rightarrow> (error + unit) \<times> world" where
  "clearAllData s w =
     (if \<not> internal_isOpen w (s_trans (store_objs w ! s)) then (Inl TransactionClosed, w)
      else
        (let w1 = checkDataClone s w;
             st = store_objs w1 ! s;
             p = map_option (fold (\<lambda>key. dict_set key JUndefined) (dict_keys (heap w1 ! mergedData st)))
                   (pendingCommitDataChanges st)
         in (Inr (),
             w1\<lparr>heap := heap w1 @ [[]],
                store_objs := (store_objs w1)[s := st\<lparr>pendingCommitDataChanges := p,
                                                      mergedData := length (heap w1)\<rparr>]\<rparr>)))"

text \<open>
  The constructor of the index's base class is not part of \<open>InMemoryProvider.ts\<close>; it
  keeps the index schema and takes the key path of the index schema, or the primary key
  path when there is none.
\<close>

definition new_index :: "tid \<Rightarrow> addr \<Rightarrow> indexSchema option \<Rightarrow> keyPath \<Rightarrow> inMemoryIndex" where
  "new_index t m ixs pkp =
     \<lparr>i_trans = t, i_mergedData = m, i_indexSchema = ixs,
      i_keyPath = (case ixs of None \<Rightarrow> pkp | Some sch \<Rightarrow> ix_keyPath sch)\<rparr>"

definition openPrimaryKey :: "sid \<Rightarrow> world \<Rightarrow> inMemoryIndex \<times> world" where
  "openPrimaryKey s w =
     (let w1 = checkDataClone s w;
          st = store_objs w1 ! s
      in (new_index (s_trans st) (mergedData st) None (st_primaryKeyPath (s_storeSchema st)), w1))"

definition openIndex :: "sid \<Rightarrow> string \<Rightarrow> world \<Rightarrow> inMemoryIndex option \<times> world" where
  "openIndex s indexName w =
     (case find (\<lambda>idx. ix_name idx = indexName) (st_indexes (s_storeSchema (store_objs w ! s))) of
        None \<Rightarrow> (None, w)
      | Some indexSchema \<Rightarrow>
          (let w1 = checkDataClone s w;
               st = store_objs w1 ! s
           in (Some (new_index (s_trans st) (mergedData st) (Some indexSchema)
                       (st_primaryKeyPath (s_storeSchema st))), w1)))"

section \<open>InMemoryIndex\<close>

text \<open>\<open>_.map(xs, f)\<close> with an \<open>f\<close> that may throw: the first exception ends the map.\<close>

fun map_throwing :: "('a \<Rightarrow> error + 'b) \<Rightarrow> 'a list \<Rightarrow> error + 'b list" where
  "map_throwing f [] = Inr []"
| "map_throwing f (x # xs) =
     (case f x of
        Inl err \<Rightarrow> Inl err
      | Inr y \<Rightarrow> (case map_throwing f xs of Inl err \<Rightarrow> Inl err | Inr ys \<Rightarrow> Inr (y # ys)))"

text \<open>The index keys one row contributes.\<close>

definition item_keys :: "codec \<Rightarrow> indexSchema \<Rightarrow> keyPath \<Rightarrow> jsval \<Rightarrow> error + string list" where
  "item_keys cd sch kp item =
     (if ix_fullText sch then
        (case getFullTextIndexWordsForItem cd kp item of
           Inl err \<Rightarrow> Inl err
         | Inr ws \<Rightarrow> map_throwing (\<lambda>val. serializeKeyToString cd val kp) ws)
      else if ix_multiEntry sch then
        (let valsRaw = getValueForSingleKeypath cd item kp
         in if truthy valsRaw
            then map_throwing (\<lambda>val. serializeKeyToString cd val kp) (arrayify cd valsRaw)
            else Inr [])
      else
        (case getSerializedKeyForKeypath cd item kp of
           Inl err \<Rightarrow> Inl err
         | Inr k \<Rightarrow> Inr [k]))"

text \<open>\<open>bucket.push(item)\<close>; every bucket is an array.\<close>

fun js_push :: "jsval \<Rightarrow> jsval \<Rightarrow> jsval" where
  "js_push (JArr xs) item = JArr (xs @ [item])"
| "js_push v item = v"

definition add_to_bucket :: "jsval \<Rightarrow> string \<Rightarrow> jsval dictionary \<Rightarrow> jsval dictionary" where
  "add_to_bucket item key data =
     (if \<not> truthy (dict_get data key) then dict_set key (JArr [item]) data
      else dict_set key (js_push (dict_get data key) item) data)"

fun chunk_items :: "codec \<Rightarrow> indexSchema \<Rightarrow> keyPath \<Rightarrow> jsval list \<Rightarrow> jsval dictionary \<Rightarrow> error + jsval dictionary" where
  "chunk_items cd sch kp [] data = Inr data"
| "chunk_items cd sch kp (item # items) data =
     (case item_keys cd sch kp item of
        Inl err \<Rightarrow> Inl err
      | Inr keys \<Rightarrow> chunk_items cd sch kp items (fold (add_to_bucket item) keys data))"

definition calcChunkedData :: "codec \<Rightarrow> world \<Rightarrow> inMemoryIndex \<Rightarrow> error + jsval dictionary" where
  "calcChunkedData cd w ix =
     (case i_indexSchema ix of
        None \<Rightarrow> Inr (heap w ! i_mergedData ix)
      | Some sch \<Rightarrow> chunk_items cd sch (i_keyPath ix) (map snd (heap w ! i_mergedData ix)) [])"

text \<open>\<open>xs.slice(start)\<close> and \<open>xs.slice(0, end)\<close>, negative arguments counting from the end.\<close>

definition slice_from :: "int \<Rightarrow> 'a list \<Rightarrow> 'a list" where
  "slice_from start xs =
     (if start < 0 then drop (nat (int (length xs) + start)) xs else drop (nat start) xs)"

definition slice_to :: "int \<Rightarrow> 'a list \<Rightarrow> 'a list" where
  "slice_to end xs =
     (if end < 0 then take (nat (int (length xs) + end)) xs else take (nat end) xs)"

text \<open>\<open>_.flatten\<close>: one level, arrays are spliced in.\<close>

fun spread :: "jsval \<Rightarrow> jsval list" where
  "spread (JArr xs) = xs"
| "spread v = [v]"

definition flatten :: "jsval list \<Rightarrow> jsval list" where
  "flatten results = concat (map spread results)"

definition returnResultsFromKeys ::
  "jsval dictionary \<Rightarrow> string list \<Rightarrow> bool \<Rightarrow> int option \<Rightarrow> int option \<Rightarrow> jsval list" where
  "returnResultsFromKeys data sortedKeys reverse limit offset =
     (let ks1 = (if reverse then rev sortedKeys else sortedKeys);
          ks2 = (case offset of None \<Rightarrow> ks1 | Some n \<Rightarrow> if n \<noteq> 0 then slice_from n ks1 else ks1);
          ks3 = (case limit of None \<Rightarrow> ks2 | Some n \<Rightarrow> if n \<noteq> 0 then slice_to n ks2 else ks2)
      in flatten (map (dict_get data) ks3))"

definition in_range :: "string \<Rightarrow> string \<Rightarrow> bool \<Rightarrow> bool \<Rightarrow> string \<Rightarrow> bool" where
  "in_range keyLow keyHigh lowRangeExclusive highRangeExclusive key =
     ((key > keyLow \<or> (key = keyLow \<and> \<not> lowRangeExclusive)) \<and>
      (key < keyHigh \<or> (key = keyHigh \<and> \<not> highRangeExclusive)))"

definition getKeysForRange ::
  "codec \<Rightarrow> inMemoryIndex \<Rightarrow> jsval dictionary \<Rightarrow> jsval \<Rightarrow> jsval \<Rightarrow> bool \<Rightarrow> bool \<Rightarrow> error + string list" where
  "getKeysForRange cd ix data keyLowRange keyHighRange lowRangeExclusive highRangeExclusive =
     (case serializeKeyToString cd keyLowRange (i_keyPath ix) of
        Inl err \<Rightarrow> Inl err
      | Inr keyLow \<Rightarrow>
          (case serializeKeyToString cd keyHighRange (i_keyPath ix) of
             Inl err \<Rightarrow> Inl err
           | Inr keyHigh \<Rightarrow>
               Inr (filter (in_range keyLow keyHigh lowRangeExclusive highRangeExclusive) (dict_keys data))))"

definition getAll ::
  "codec \<Rightarrow> world \<Rightarrow> inMemoryIndex \<Rightarrow> bool \<Rightarrow> int option \<Rightarrow> int option \<Rightarrow> error + jsval list" where
  "getAll cd w ix reverse limit offset =
     (if \<not> internal_isOpen w (i_trans ix) then Inl TransactionClosed
      else
        (case calcChunkedData cd w ix of
           Inl err \<Rightarrow> Inl err
         | Inr data \<Rightarrow> Inr (returnResultsFromKeys data (sort (dict_keys data)) reverse limit offset)))"

definition getRange ::
  "codec \<Rightarrow> world \<Rightarrow> inMemoryIndex \<Rightarrow> jsval \<Rightarrow> jsval \<Rightarrow> bool \<Rightarrow> bool \<Rightarrow> bool \<Rightarrow> int option \<Rightarrow> int option
     \<Rightarrow> error + jsval list" where
  "getRange cd w ix keyLowRange keyHighRange lowRangeExclusive highRangeExclusive reverse limit offset =
     (if \<not> internal_isOpen w (i_trans ix) then Inl TransactionClosed
      else
        (case calcChunkedData cd w ix of
           Inl err \<Rightarrow> Inl err
         | Inr data \<Rightarrow>
             (case getKeysForRange cd ix data keyLowRange keyHighRange lowRangeExclusive highRangeExclusive of
                Inl err \<Rightarrow> Inl err
              | Inr keys \<Rightarrow> Inr (returnResultsFromKeys data (sort keys) reverse limit offset))))"

definition getOnly ::
  "codec \<Rightarrow> world \<Rightarrow> inMemoryIndex \<Rightarrow> jsval \<Rightarrow> bool \<Rightarrow> int option \<Rightarrow> int option \<Rightarrow> error + jsval list" where
  "getOnly cd w ix key reverse limit offset = getRange cd w ix key key False False reverse limit offset"

definition countAll :: "codec \<Rightarrow> world \<Rightarrow> inMemoryIndex \<Rightarrow> error + nat" where
  "countAll cd w ix =
     (if \<not> internal_isOpen w (i_trans ix) then Inl TransactionClosed
      else
        (case calcChunkedData cd w ix of
           Inl err \<Rightarrow> Inl err
         | Inr data \<Rightarrow> Inr (length (dict_keys data))))"

definition countRange ::
  "codec \<Rightarrow> world \<Rightarrow> inMemoryIndex \<Rightarrow> jsval \<Rightarrow> jsval \<Rightarrow> bool \<Rightarrow> bool \<Rightarrow> error + nat" where
  "countRange cd w ix keyLowRange keyHighRange lowRangeExclusive highRangeExclusive =
     (if \<not> internal_isOpen w (i_trans ix) then Inl TransactionClosed
      else
        (case calcChunkedData cd w ix of
           Inl err \<Rightarrow> Inl err
         | Inr data \<Rightarrow>
             (case getKeysForRange cd ix data keyLowRange keyHighRange lowRangeExclusive highRangeExclusive of
                Inl err \<Rightarrow> Inl err
              | Inr keys \<Rightarrow> Inr (length keys))))"

definition countOnly :: "codec \<Rightarrow> world \<Rightarrow> inMemoryIndex \<Rightarrow> jsval \<Rightarrow> error + nat" where
  "countOnly cd w ix key = countRange cd w ix key key False False"

section \<open>Calls issued by a client\<close>

text \<open>
  The calls that change the state of the provider. A client can only call a method on a
  transaction or store handle it has been given, so a call on a handle that does not
  exist leaves the state as it is. Calls on what \<open>getStore\<close> returned other than a store
  handle are not among them: they change nothing of the state modelled here.
\<close>

datatype op =
    OpenTransaction "string list" bool
  | GetStore tid string
  | Abort tid
  | Fire tid
  | Put sid jsval
  | Remove sid jsval
  | ClearAllData sid
  | OpenPrimaryKey sid
  | OpenIndex sid string

fun exec :: "codec \<Rightarrow> op \<Rightarrow> world \<Rightarrow> world" where
  "exec cd (OpenTransaction names writeNeeded) w = snd (openTransaction names writeNeeded w)"
| "exec cd (GetStore t name) w = (if t < length (transactions w) then snd (getStore t name w) else w)"
| "exec cd (Abort t) w = (if t < length (transactions w) then abort t w else w)"
| "exec cd (Fire t) w = (if t < length (transactions w) then fire t w else w)"
| "exec cd (Put s itemOrItems) w = (if s < length (store_objs w) then snd (put cd s itemOrItems w) else w)"
| "exec cd (Remove s keyOrKeys) w = (if s < length (store_objs w) then snd (remove cd s keyOrKeys w) else w)"
| "exec cd (ClearAllData s) w = (if s < length (store_objs w) then snd (clearAllData s w) else w)"
| "exec cd (OpenPrimaryKey s) w = (if s < length (store_objs w) then snd (openPrimaryKey s w) else w)"
| "exec cd (OpenIndex s indexName) w = (if s < length (store_objs w) then snd (openIndex s indexName w) else w)"

definition run :: "codec \<Rightarrow> op list \<Rightarrow> world \<Rightarrow> world" where
  "run cd ops w = fold (exec cd) ops w"

text \<open>The timeout callback is the only call that commits.\<close>

fun is_commit :: "op \<Rightarrow> bool" where
  "is_commit (Fire t) = True"
| "is_commit other = False"



section \<open>What is observed of a state\<close>

text \<open>The committed row dictionary of the store of a given name.\<close>

definition committed_rows :: "world \<Rightarrow> string \<Rightarrow> jsval dictionary option" where
  "committed_rows w name =
     (case map_of (p_stores w) name of None \<Rightarrow> None | Some sd \<Rightarrow> Some (heap w ! sd_data sd))"

text \<open>
  What a transaction opened next reads from a store: the dictionary behind the handle
  that \<open>getStore\<close> gives it, and the result of \<open>get\<close> on that handle. When \<open>getStore\<close>
  gives no store handle there is no dictionary, and \<open>get\<close> fails with a \<open>TypeError\<close>.
\<close>

definition next_transaction_rows ::
  "string list \<Rightarrow> bool \<Rightarrow> string \<Rightarrow> world \<Rightarrow> jsval dictionary option" where
  "next_transaction_rows names writeNeeded name w =
     (let (t, w1) = openTransaction names writeNeeded w
      in case getStore t name w1 of
           (Inl err, w2) \<Rightarrow> None
         | (Inr (Handle s), w2) \<Rightarrow> Some (heap w2 ! mergedData (store_objs w2 ! s))
         | (Inr other, w2) \<Rightarrow> None)"

definition next_transaction_get ::
  "codec \<Rightarrow> string list \<Rightarrow> bool \<Rightarrow> string \<Rightarrow> jsval \<Rightarrow> world \<Rightarrow> error + jsval" where
  "next_transaction_get cd names writeNeeded name key w =
     (let (t, w1) = openTransaction names writeNeeded w
      in case getStore t name w1 of
           (Inl err, w2) \<Rightarrow> Inl err
         | (Inr (Handle s), w2) \<Rightarrow> get cd w2 s key
         | (Inr other, w2) \<Rightarrow> Inl (TypeError ''get''))"

subsection \<open>The result of a range query in the words of the specification\<close>




section \<open>Well-formed states\<close>

text \<open>
  The addresses of the committed dictionaries, and whether a store handle has forked
  (\<open>_pendingCommitDataChanges\<close> is set).
\<close>

definition data_addrs :: "world \<Rightarrow> addr list" where
  "data_addrs w = map (\<lambda>e. sd_data (snd e)) (p_stores w)"

definition forked :: "inMemoryStore \<Rightarrow> bool" where
  "forked st = (pendingCommitDataChanges st \<noteq> None)"

text \<open>
  The states the provider can be in: store names and committed dictionaries are unique
  and allocated; a store handle belongs to a transaction and to a committed dictionary,
  reads that dictionary until it forks, and from then on owns a dictionary of its own,
  shared with no other handle; the handles in a transaction's \<open>_stores\<close> are handles of
  that transaction for the store of that name, which is not the name of a member
  inherited from \<open>Object.prototype\<close>.
\<close>

definition wf_provider :: "world \<Rightarrow> bool" where
  "wf_provider w \<longleftrightarrow>
     distinct (map fst (p_stores w)) \<and> distinct (data_addrs w) \<and>
     (\<forall>a\<in>set (data_addrs w). a < length (heap w))"

definition wf_store :: "world \<Rightarrow> inMemoryStore \<Rightarrow> bool" where
  "wf_store w st \<longleftrightarrow>
     s_trans st < length (transactions w) \<and>
     committedStoreData st \<in> set (data_addrs w) \<and>
     (case pendingCommitDataChanges st of
        None \<Rightarrow> mergedData st = committedStoreData st
      | Some p \<Rightarrow> distinct (map fst p) \<and> mergedData st < length (heap w) \<and>
                  mergedData st \<notin> set (data_addrs w))"

definition wf_handle :: "world \<Rightarrow> tid \<Rightarrow> string \<times> sid \<Rightarrow> bool" where
  "wf_handle w t e \<longleftrightarrow>
     snd e < length (store_objs w) \<and> s_trans (store_objs w ! snd e) = t \<and>
     fst e \<notin> set object_prototype_names \<and>
     (case map_of (p_stores w) (fst e) of
        None \<Rightarrow> False
      | Some sd \<Rightarrow> committedStoreData (store_objs w ! snd e) = sd_data sd \<and>
                   s_storeSchema (store_objs w ! snd e) = sd_schema sd)"

definition wf :: "world \<Rightarrow> bool" where
  "wf w \<longleftrightarrow>
     wf_provider w \<and>
     (\<forall>i\<in>set [0..<length (store_objs w)]. wf_store w (store_objs w ! i)) \<and>
     (\<forall>i\<in>set [0..<length (store_objs w)]. \<forall>j\<in>set [0..<length (store_objs w)].
        i \<noteq> j \<and> forked (store_objs w ! i) \<and> forked (store_objs w ! j) \<longrightarrow>
        mergedData (store_objs w ! i) \<noteq> mergedData (store_objs w ! j)) \<and>
     (\<forall>t\<in>set [0..<length (transactions w)].
        distinct (map fst (t_stores (transactions w ! t))) \<and>
        (\<forall>e\<in>set (t_stores (transactions w ! t)). wf_handle w t e))"

text \<open>Every dictionary of the heap has each key once, as an object has.\<close>

definition wf_heap :: "world \<Rightarrow> bool" where
  "wf_heap w \<longleftrightarrow> list_all (\<lambda>d. distinct (dict_keys d)) (heap w)"

text \<open>
  What a call on store handle \<open>s\<close> may change, short of a commit: the handle itself (not
  its transaction, committed dictionary or schema), the dictionary the handle owns once
  forked, and new dictionaries.
\<close>

definition store_step :: "sid \<Rightarrow> world \<Rightarrow> world \<Rightarrow> bool" where
  "store_step s w w' \<longleftrightarrow>
     p_stores w' = p_stores w \<and> transactions w' = transactions w \<and> timers w' = timers w \<and>
     p_proto w' = p_proto w \<and> next_malformed w' = next_malformed w \<and>
     length (heap w) \<le> length (heap w') \<and>
     (\<exists>st'. store_objs w' = (store_objs w)[s := st'] \<and>
        s_trans st' = s_trans (store_objs w ! s) \<and>
        committedStoreData st' = committedStoreData (store_objs w ! s) \<and>
        s_storeSchema st' = s_storeSchema (store_objs w ! s) \<and>
        (case pendingCommitDataChanges st' of
           None \<Rightarrow> mergedData st' = committedStoreData st'
         | Some q \<Rightarrow>
             distinct (map fst q) \<and> mergedData st' < length (heap w') \<and>
             ((forked (store_objs w ! s) \<and> mergedData st' = mergedData (store_objs w ! s)) \<or>
              length (heap w) \<le> mergedData st'))) \<and>
     (\<forall>a<length (heap w).
        \<not> (forked (store_objs w ! s) \<and> a = mergedData (store_objs w ! s)) \<longrightarrow> heap w' ! a = heap w ! a)"

text \<open>
  The states of a provider whose schema declares no store under the name \<open>__proto__\<close>: the
  prototype of its \<open>_stores\<close> is \<open>Object.prototype\<close>, and every \<open>InMemoryStore\<close> has been
  constructed from a \<open>StoreData\<close>.
\<close>

definition plain_provider :: "world \<Rightarrow> bool" where
  "plain_provider w \<longleftrightarrow>
     p_proto w = None \<and>
     (\<forall>t\<in>set [0..<length (transactions w)]. t_malformed (transactions w ! t) = [])"

text \<open>The handle after its commit, and the committed dictionary after the replay.\<close>

definition committed_handle :: "inMemoryStore \<Rightarrow> inMemoryStore" where
  "committed_handle st = st\<lparr>pendingCommitDataChanges := None, mergedData := committedStoreData st\<rparr>"

definition replayed :: "inMemoryStore \<Rightarrow> jsval dictionary \<Rightarrow> jsval dictionary" where
  "replayed st c = (case pendingCommitDataChanges st of None \<Rightarrow> c | Some p \<Rightarrow> fold replay p c)"

section \<open>A concrete codec, schema and sessions\<close>

text \<open>
  Modelled from the spec: the KeyCodec collaborator (\<open>NoSqlProviderUtils\<close>) is not part of
  \<open>InMemoryProvider.ts\<close>. This instance meets the contract the specification gives (pure
  functions; serialized keys are strings whose order is the key order) and serves to
  run the provider on concrete inputs: a string key \<open>s\<close> serializes to \<open>C\<close> followed by
  \<open>s\<close>, a non-negative number \<open>n\<close> to \<open>A\<close> followed by \<open>n\<close> strokes; a key path names a
  field of an object, or the \<open>length\<close> of a string.
\<close>

definition demo_serialize :: "jsval \<Rightarrow> keyPath \<Rightarrow> error + string" where
  "demo_serialize v kp =
     (case v of
        JStr s \<Rightarrow> Inr (CHR ''C'' # s)
      | JNum n \<Rightarrow>
          if 0 \<le> n then Inr (CHR ''A'' # replicate (nat n) CHR ''1'')
          else Inl (KeySerializationError ''unsupported key'')
      | _ \<Rightarrow> Inl (KeySerializationError ''unsupported key''))"

definition demo_field :: "jsval \<Rightarrow> keyPath \<Rightarrow> jsval" where
  "demo_field v kp =
     (case kp of
        KeyPaths ps \<Rightarrow> JUndefined
      | KeyPath p \<Rightarrow>
          (case v of
             JObj fs \<Rightarrow> dict_get fs p
           | JStr s \<Rightarrow> if p = ''length'' then JNum (int (length s)) else JUndefined
           | _ \<Rightarrow> JUndefined))"

definition demo_arrayify :: "jsval \<Rightarrow> jsval list" where
  "demo_arrayify v = (case v of JArr xs \<Rightarrow> xs | _ \<Rightarrow> [v])"

definition demo_codec :: codec where
  "demo_codec =
     \<lparr>serializeKeyToString = demo_serialize,
      formListOfSerializedKeys = (\<lambda>v kp. map_throwing (\<lambda>k. demo_serialize k kp) (demo_arrayify v)),
      getSerializedKeyForKeypath = (\<lambda>item kp. demo_serialize (demo_field item kp) kp),
      getValueForSingleKeypath = demo_field,
      arrayify = demo_arrayify,
      getFullTextIndexWordsForItem = (\<lambda>kp item. Inr [])\<rparr>"

definition tags_index :: indexSchema where
  "tags_index = \<lparr>ix_name = ''tags'', ix_keyPath = KeyPath ''tags'', ix_fullText = False, ix_multiEntry = True\<rparr>"

definition demo_schema :: "storeSchema list" where
  "demo_schema =
     [\<lparr>st_name = ''s'', st_primaryKeyPath = KeyPath ''id'', st_indexes = [tags_index]\<rparr>,
      \<lparr>st_name = ''t'', st_primaryKeyPath = KeyPath ''length'', st_indexes = []\<rparr>]"

definition row :: "string \<Rightarrow> jsval list \<Rightarrow> jsval" where
  "row k tags = JObj [(''id'', JStr k), (''tags'', JArr tags)]"

text \<open>
  The first session: transaction 0 on both stores obtains store handles 0 (for \<open>s\<close>) and 1 (for
  \<open>t\<close>), puts three rows into \<open>s\<close> and the empty string into \<open>t\<close>, and opens the primary
  key index of \<open>s\<close>.
\<close>

definition demo_ops :: "op list" where
  "demo_ops =
     [OpenTransaction [''s'', ''t''] True,
      GetStore 0 ''s'',
      GetStore 0 ''t'',
      Put 0 (JArr [row ''b'' [JStr ''x'', JStr ''y''], row ''a'' [], row ''c'' [JStr ''y'']]),
      Put 1 (JStr []),
      OpenPrimaryKey 0]"

definition demo_world :: world where
  "demo_world = run demo_codec demo_ops (open_provider demo_schema new_provider)"

definition demo_primary :: inMemoryIndex where
  "demo_primary = fst (openPrimaryKey 0 demo_world)"

text \<open>
  Another session, with a single row in store \<open>s\<close>, whose \<open>tags\<close> field is the collection of
  \<open>x\<close> and \<open>y\<close>, and the multi-entry index on \<open>tags\<close>.
\<close>

definition fanout_ops :: "op list" where
  "fanout_ops =
     [OpenTransaction [''s''] True,
      GetStore 0 ''s'',
      Put 0 (row ''r'' [JStr ''x'', JStr ''y'']),
      OpenIndex 0 ''tags'']"

definition fanout_world :: world where
  "fanout_world = run demo_codec fanout_ops (open_provider demo_schema new_provider)"

definition fanout_tags :: inMemoryIndex where
  "fanout_tags = the (fst (openIndex 0 ''tags'' fanout_world))"

text \<open>The first session, after \<open>abort()\<close> has been called on its transaction.\<close>

definition aborted_world :: world where
  "aborted_world = abort 0 demo_world"

text \<open>
  The first session continued: its transaction commits, and two further transactions, 1
  and 2, are opened on store \<open>s\<close> and obtain the store handles 2 and 3.
\<close>

definition committed_world :: world where
  "committed_world =
     run demo_codec
       [Fire 0,
        OpenTransaction [''s''] True, GetStore 1 ''s'',
        OpenTransaction [''s''] False, GetStore 2 ''s'']
       demo_world"

definition writes :: "op list" where
  "writes = [Put 2 (row ''z'' []), Remove 2 (JStr ''a''), ClearAllData 2, Put 2 (row ''y'' [])]"



text \<open>The provider just opened, with one transaction on store \<open>s\<close>.\<close>

definition opened_world :: world where
  "opened_world = snd (openTransaction [''s''] True (open_provider demo_schema new_provider))"

text \<open>Transaction 1 of the continued session has put a row and removed another.\<close>

definition pending_world :: world where
  "pending_world = run demo_codec [Put 2 (row ''z'' []), Remove 2 (JStr ''a'')] committed_world"

section \<open>Limit and offset of index queries\<close>








section \<open>Range queries\<close>







lemma demo_world_value:
  "demo_world =
     \<lparr>heap =
        [[], [],
         [(''Cb'', row ''b'' [JStr ''x'', JStr ''y'']), (''Ca'', row ''a'' []), (''Cc'', row ''c'' [JStr ''y''])],
         [(''A'', JStr [])]],
      p_stores =
        [(''s'', \<lparr>sd_schema = demo_schema ! 0, sd_data = 0\<rparr>),
         (''t'', \<lparr>sd_schema = demo_schema ! 1, sd_data = 1\<rparr>)],
      transactions =
        [\<lparr>openTimer = Some 1, t_stores = [(''s'', 0), (''t'', 1)], storeNames = [''s'', ''t''],
           t_outcome = Pending, t_malformed = []\<rparr>],
      store_objs =
        [\<lparr>s_trans = 0,
           pendingCommitDataChanges =
             Some [(''Cb'', row ''b'' [JStr ''x'', JStr ''y'']), (''Ca'', row ''a'' []),
                   (''Cc'', row ''c'' [JStr ''y''])],
           committedStoreData = 0, mergedData = 2, s_storeSchema = demo_schema ! 0\<rparr>,
         \<lparr>s_trans = 0, pendingCommitDataChanges = Some [(''A'', JStr [])],
           committedStoreData = 1, mergedData = 3, s_storeSchema = demo_schema ! 1\<rparr>],
      timers = [1], p_proto = None, next_malformed = 0\<rparr>"
  by code_simp

lemma demo_primary_value:
  "demo_primary = \<lparr>i_trans = 0, i_mergedData = 2, i_indexSchema = None, i_keyPath = KeyPath ''id''\<rparr>"
  by code_simp



section \<open>Reading rows by key\<close>

lemma get_resolved:
  assumes "internal_isOpen w (s_trans (store_objs w ! s))"
    and "serializeKeyToString cd key (st_primaryKeyPath (s_storeSchema (store_objs w ! s))) = Inr k"
  shows "get cd w s key = Inr (dict_get (heap w ! mergedData (store_objs w ! s)) k)"
  using assms by (simp add: get_def)

lemma getMultiple_resolved:
  assumes "internal_isOpen w (s_trans (store_objs w ! s))"
    and "formListOfSerializedKeys cd keyOrKeys (st_primaryKeyPath (s_storeSchema (store_objs w ! s))) = Inr ks"
  shows "getMultiple cd w s keyOrKeys =
     Inr (filter truthy (map (dict_get (heap w ! mergedData (store_objs w ! s))) ks))"
  using assms by (simp add: getMultiple_def)

lemma getMultiple_truthy:
  assumes "getMultiple cd w s keyOrKeys = Inr rows" and "r \<in> set rows"
  shows "truthy r"
  using assms by (auto simp: getMultiple_def Let_def split: if_splits sum.splits)

lemma dict_get_delete:
  "dict_get (dict_delete k d) j = (if j = k then JUndefined else dict_get d j)"
  by (simp add: dict_get_def dict_delete_def delete_conv')

lemma compact_after_delete:
  assumes "\<not> truthy (dict_get d k)"
  shows "filter truthy (map (dict_get (dict_delete k d)) ks) = filter truthy (map (dict_get d) ks)"
  using assms by (induction ks) (auto simp: dict_get_delete)

lemma compact_shorter:
  assumes "\<not> truthy (dict_get d k)" and "k \<in> set ks"
  shows "length (filter truthy (map (dict_get d) ks)) < length ks"
proof -
  have "length (filter truthy (map (dict_get d) ks)) < length (map (dict_get d) ks)"
    using assms by (intro length_filter_less[where x = "dict_get d k"]) auto
  then show ?thesis by simp
qed

text \<open>
  Claim C9. In an open transaction, let a falsy row \<open>r\<close> be stored under key \<open>k\<close>. Then
  \<open>get\<close> with a key that serializes to \<open>k\<close> returns \<open>r\<close>, whereas \<open>getMultiple\<close> returns the
  truthy rows of the listed keys only: \<open>r\<close> is not among them, a key list containing \<open>k\<close>
  yields fewer rows than keys, and the result is the one \<open>getMultiple\<close> gives once \<open>k\<close>
  has been deleted from the dictionary.
\<close>

theorem getMultiple_omits_falsy_rows:
  assumes "internal_isOpen w (s_trans (store_objs w ! s))"
    and "serializeKeyToString cd key (st_primaryKeyPath (s_storeSchema (store_objs w ! s))) = Inr k"
    and "formListOfSerializedKeys cd keyOrKeys (st_primaryKeyPath (s_storeSchema (store_objs w ! s))) = Inr ks"
    and "map_of (heap w ! mergedData (store_objs w ! s)) k = Some r"
    and "\<not> truthy r"
  shows "get cd w s key = Inr r \<and>
         (\<exists>rows. getMultiple cd w s keyOrKeys = Inr rows \<and>
                 list_all truthy rows \<and> r \<notin> set rows \<and>
                 (if k \<in> set ks then length rows < length ks else length rows \<le> length ks) \<and>
                 getMultiple cd
                   (w\<lparr>heap := (heap w)[mergedData (store_objs w ! s) :=
                        dict_delete k (heap w ! mergedData (store_objs w ! s))]\<rparr>) s keyOrKeys = Inr rows)"
proof -
  let ?m = "mergedData (store_objs w ! s)"
  let ?rows = "filter truthy (map (dict_get (heap w ! ?m)) ks)"
  let ?w' = "w\<lparr>heap := (heap w)[?m := dict_delete k (heap w ! ?m)]\<rparr>"
  have r: "dict_get (heap w ! ?m) k = r"
    using assms(4) by (simp add: dict_get_def)
  have falsy: "\<not> truthy (dict_get (heap w ! ?m) k)"
    using r assms(5) by simp
  have g: "get cd w s key = Inr r"
    using get_resolved[OF assms(1,2)] r by simp
  have m: "getMultiple cd w s keyOrKeys = Inr ?rows"
    by (rule getMultiple_resolved[OF assms(1,3)])
  have t: "list_all truthy ?rows"
    by (simp add: list_all_iff)
  have n: "r \<notin> set ?rows"
    using assms(5) by auto
  have l: "if k \<in> set ks then length ?rows < length ks else length ?rows \<le> length ks"
    using compact_shorter[OF falsy] length_filter_le[of truthy "map (dict_get (heap w ! ?m)) ks"]
    by simp
  have o: "internal_isOpen ?w' (s_trans (store_objs ?w' ! s))"
    using assms(1) by (simp add: internal_isOpen_def)
  have f: "formListOfSerializedKeys cd keyOrKeys (st_primaryKeyPath (s_storeSchema (store_objs ?w' ! s))) = Inr ks"
    using assms(3) by simp
  have h: "filter truthy (map (dict_get (heap ?w' ! mergedData (store_objs ?w' ! s))) ks) = ?rows"
  proof (cases "?m < length (heap w)")
    case True
    then show ?thesis by (simp add: compact_after_delete[OF falsy])
  next
    case False
    then have "(heap w)[?m := dict_delete k (heap w ! ?m)] = heap w"
      by (intro list_update_beyond) simp
    then show ?thesis by simp
  qed
  have d: "getMultiple cd ?w' s keyOrKeys = Inr ?rows"
    using getMultiple_resolved[OF o f] h by simp
  show ?thesis using g m t n l d by blast
qed

theorem getMultiple_omits_falsy_rows_witness:
  "get demo_codec demo_world 1 (JNum 0) = Inr (JStr []) \<and>
   getMultiple demo_codec demo_world 1 (JArr [JNum 0, JNum 1]) = Inr [] \<and>
   getMultiple demo_codec (demo_world\<lparr>heap := (heap demo_world)[3 := dict_delete ''A'' (heap demo_world ! 3)]\<rparr>)
     1 (JArr [JNum 0, JNum 1]) = Inr []"
proof -
  have 1: "internal_isOpen demo_world (s_trans (store_objs demo_world ! 1))" by code_simp
  have 2: "serializeKeyToString demo_codec (JNum 0)
             (st_primaryKeyPath (s_storeSchema (store_objs demo_world ! 1))) = Inr ''A''" by code_simp
  have 3: "formListOfSerializedKeys demo_codec (JArr [JNum 0, JNum 1])
             (st_primaryKeyPath (s_storeSchema (store_objs demo_world ! 1))) = Inr [''A'', ''A1'']" by code_simp
  have 4: "map_of (heap demo_world ! mergedData (store_objs demo_world ! 1)) ''A'' = Some (JStr [])" by code_simp
  have 5: "\<not> truthy (JStr [])" by simp
  have 6: "mergedData (store_objs demo_world ! 1) = 3" by code_simp
  have 7: "getMultiple demo_codec demo_world 1 (JArr [JNum 0, JNum 1]) = Inr []" by code_simp
  show ?thesis
    using getMultiple_omits_falsy_rows[OF 1 2 3 4 5] 6 7 by simp
qed

section \<open>Counting index keys\<close>

lemma distinct_dict_set: "distinct (dict_keys d) \<Longrightarrow> distinct (dict_keys (dict_set k v d))"
  by (simp add: dict_keys_def dict_set_def distinct_update)

lemma distinct_add_to_bucket:
  "distinct (dict_keys d) \<Longrightarrow> distinct (dict_keys (add_to_bucket item k d))"
  by (simp add: add_to_bucket_def distinct_dict_set)

lemma distinct_fold_add_to_bucket:
  "distinct (dict_keys d) \<Longrightarrow> distinct (dict_keys (fold (add_to_bucket item) ks d))"
  by (induction ks arbitrary: d) (simp_all add: distinct_add_to_bucket)

lemma distinct_chunk_items:
  "chunk_items cd sch kp items d = Inr data \<Longrightarrow> distinct (dict_keys d) \<Longrightarrow> distinct (dict_keys data)"
  by (induction items arbitrary: d) (auto split: sum.splits simp: distinct_fold_add_to_bucket)

lemma distinct_calcChunkedData:
  assumes "calcChunkedData cd w ix = Inr data"
    and "distinct (dict_keys (heap w ! i_mergedData ix))"
  shows "distinct (dict_keys data)"
proof (cases "i_indexSchema ix")
  case None
  with assms show ?thesis by (simp add: calcChunkedData_def)
next
  case (Some sch)
  with assms(1) have "chunk_items cd sch (i_keyPath ix) (map snd (heap w ! i_mergedData ix)) [] = Inr data"
    by (simp add: calcChunkedData_def)
  then show ?thesis by (rule distinct_chunk_items) (simp add: dict_keys_def)
qed

lemma length_filter_card: "distinct xs \<Longrightarrow> length (filter P xs) = card {x \<in> set xs. P x}"
  using distinct_card[of "filter P xs"] by simp

lemma in_range_only: "in_range k k False False j \<longleftrightarrow> j = k"
  by (auto simp: in_range_def)

lemma countAll_resolved:
  "internal_isOpen w (i_trans ix) \<Longrightarrow> calcChunkedData cd w ix = Inr data \<Longrightarrow>
   countAll cd w ix = Inr (length (dict_keys data))"
  by (simp add: countAll_def)

lemma countRange_resolved:
  assumes "internal_isOpen w (i_trans ix)"
    and "calcChunkedData cd w ix = Inr data"
    and "serializeKeyToString cd keyLowRange (i_keyPath ix) = Inr low"
    and "serializeKeyToString cd keyHighRange (i_keyPath ix) = Inr high"
  shows "countRange cd w ix keyLowRange keyHighRange lx hx =
           Inr (length (filter (in_range low high lx hx) (dict_keys data)))"
  using assms by (simp add: countRange_def getKeysForRange_def)

lemma getAll_resolved:
  "internal_isOpen w (i_trans ix) \<Longrightarrow> calcChunkedData cd w ix = Inr data \<Longrightarrow>
   getAll cd w ix reverse limit offset =
     Inr (returnResultsFromKeys data (sort (dict_keys data)) reverse limit offset)"
  by (simp add: getAll_def)

text \<open>The derived mapping of a multi-entry index over a single row with two entries.\<close>

lemma multiEntry_single_row:
  assumes "i_indexSchema ix = Some sch" and "\<not> ix_fullText sch" and "ix_multiEntry sch"
    and "heap w ! i_mergedData ix = [(pk, r)]"
    and "getValueForSingleKeypath cd r (i_keyPath ix) = JArr [vx, vy]"
    and "arrayify cd (JArr [vx, vy]) = [vx, vy]"
    and "serializeKeyToString cd vx (i_keyPath ix) = Inr kx"
    and "serializeKeyToString cd vy (i_keyPath ix) = Inr ky"
    and "kx \<noteq> ky"
  shows "calcChunkedData cd w ix = Inr [(kx, JArr [r]), (ky, JArr [r])]"
  using assms
  by (simp add: calcChunkedData_def item_keys_def add_to_bucket_def dict_get_def dict_set_def)

lemma sort_two: "sort [a, b :: string] = (if a \<le> b then [a, b] else [b, a])"
  by (simp add: insort_key.simps)

text \<open>
  Claim C6. In an open transaction, \<open>countAll\<close>, \<open>countRange\<close> and \<open>countOnly\<close> return the
  number of distinct keys of the derived mapping that are selected (all of them, those
  within the bounds, the one given), whatever the number of rows; the dictionary the
  index reads has each key once, as every dictionary of a reachable state has. For a
  multi-entry index over a store holding the single row \<open>r\<close> whose indexed field is the
  collection of two values with different serialized keys, the derived mapping has both
  keys, each with the bucket \<open>[r]\<close>; \<open>getAll\<close> returns \<open>r\<close> once per key and \<open>countAll\<close>
  returns 2.
\<close>

theorem counts_are_key_counts:
  assumes "internal_isOpen w (i_trans ix)"
  shows "(calcChunkedData cd w ix = Inr data \<and> distinct (dict_keys (heap w ! i_mergedData ix)) \<and>
          serializeKeyToString cd keyLowRange (i_keyPath ix) = Inr low \<and>
          serializeKeyToString cd keyHighRange (i_keyPath ix) = Inr high \<longrightarrow>
            distinct (dict_keys data) \<and>
            countAll cd w ix = Inr (card (set (dict_keys data))) \<and>
            countRange cd w ix keyLowRange keyHighRange lowExclusive highExclusive =
              Inr (card {k \<in> set (dict_keys data).
                         (k > low \<or> (k = low \<and> \<not> lowExclusive)) \<and>
                         (k < high \<or> (k = high \<and> \<not> highExclusive))}) \<and>
            countOnly cd w ix keyLowRange = Inr (card {k \<in> set (dict_keys data). k = low})) \<and>
         (i_indexSchema ix = Some sch \<and> \<not> ix_fullText sch \<and> ix_multiEntry sch \<and>
          heap w ! i_mergedData ix = [(pk, r)] \<and>
          getValueForSingleKeypath cd r (i_keyPath ix) = JArr [vx, vy] \<and>
          arrayify cd (JArr [vx, vy]) = [vx, vy] \<and>
          serializeKeyToString cd vx (i_keyPath ix) = Inr kx \<and>
          serializeKeyToString cd vy (i_keyPath ix) = Inr ky \<and> kx \<noteq> ky \<longrightarrow>
            calcChunkedData cd w ix = Inr [(kx, JArr [r]), (ky, JArr [r])] \<and>
            getAll cd w ix reverse None None = Inr [r, r] \<and>
            countAll cd w ix = Inr 2)"
proof (intro conjI impI)
  assume h: "calcChunkedData cd w ix = Inr data \<and> distinct (dict_keys (heap w ! i_mergedData ix)) \<and>
          serializeKeyToString cd keyLowRange (i_keyPath ix) = Inr low \<and>
          serializeKeyToString cd keyHighRange (i_keyPath ix) = Inr high"
  then have c: "calcChunkedData cd w ix = Inr data"
    and lo: "serializeKeyToString cd keyLowRange (i_keyPath ix) = Inr low"
    and hi: "serializeKeyToString cd keyHighRange (i_keyPath ix) = Inr high"
    by simp_all
  show d: "distinct (dict_keys data)"
    using h distinct_calcChunkedData by blast
  show "countAll cd w ix = Inr (card (set (dict_keys data)))"
    using countAll_resolved[OF assms c] distinct_card[OF d] by simp
  show "countRange cd w ix keyLowRange keyHighRange lowExclusive highExclusive =
              Inr (card {k \<in> set (dict_keys data).
                         (k > low \<or> (k = low \<and> \<not> lowExclusive)) \<and>
                         (k < high \<or> (k = high \<and> \<not> highExclusive))})"
    using countRange_resolved[OF assms c lo hi] length_filter_card[OF d]
    by (simp add: in_range_def)
  show "countOnly cd w ix keyLowRange = Inr (card {k \<in> set (dict_keys data). k = low})"
    unfolding countOnly_def
    using countRange_resolved[OF assms c lo lo] length_filter_card[OF d]
    by (simp add: in_range_only)
next
  assume h: "i_indexSchema ix = Some sch \<and> \<not> ix_fullText sch \<and> ix_multiEntry sch \<and>
          heap w ! i_mergedData ix = [(pk, r)] \<and>
          getValueForSingleKeypath cd r (i_keyPath ix) = JArr [vx, vy] \<and>
          arrayify cd (JArr [vx, vy]) = [vx, vy] \<and>
          serializeKeyToString cd vx (i_keyPath ix) = Inr kx \<and>
          serializeKeyToString cd vy (i_keyPath ix) = Inr ky \<and> kx \<noteq> ky"
  then show c: "calcChunkedData cd w ix = Inr [(kx, JArr [r]), (ky, JArr [r])]"
    by (intro multiEntry_single_row[where sch = sch and pk = pk and vx = vx and vy = vy]) simp_all
  from h have ne: "kx \<noteq> ky" by simp
  show "getAll cd w ix reverse None None = Inr [r, r]"
    using ne
    by (simp add: getAll_resolved[OF assms c] returnResultsFromKeys_def dict_keys_def sort_two
          flatten_def dict_get_def)
  show "countAll cd w ix = Inr 2"
    by (simp add: countAll_resolved[OF assms c] dict_keys_def)
qed

lemma fanout_world_value:
  "fanout_world =
     \<lparr>heap = [[], [], [(''Cr'', row ''r'' [JStr ''x'', JStr ''y''])]],
      p_stores =
        [(''s'', \<lparr>sd_schema = demo_schema ! 0, sd_data = 0\<rparr>),
         (''t'', \<lparr>sd_schema = demo_schema ! 1, sd_data = 1\<rparr>)],
      transactions =
        [\<lparr>openTimer = Some 1, t_stores = [(''s'', 0)], storeNames = [''s''], t_outcome = Pending, t_malformed = []\<rparr>],
      store_objs =
        [\<lparr>s_trans = 0,
           pendingCommitDataChanges = Some [(''Cr'', row ''r'' [JStr ''x'', JStr ''y''])],
           committedStoreData = 0, mergedData = 2, s_storeSchema = demo_schema ! 0\<rparr>],
      timers = [1], p_proto = None, next_malformed = 0\<rparr>"
  by code_simp

lemma fanout_tags_value:
  "fanout_tags =
     \<lparr>i_trans = 0, i_mergedData = 2, i_indexSchema = Some tags_index, i_keyPath = KeyPath ''tags''\<rparr>"
  by code_simp

theorem counts_are_key_counts_witness:
  "calcChunkedData demo_codec fanout_world fanout_tags =
     Inr [(''Cx'', JArr [row ''r'' [JStr ''x'', JStr ''y'']]), (''Cy'', JArr [row ''r'' [JStr ''x'', JStr ''y'']])] \<and>
   getAll demo_codec fanout_world fanout_tags False None None =
     Inr [row ''r'' [JStr ''x'', JStr ''y''], row ''r'' [JStr ''x'', JStr ''y'']] \<and>
   countAll demo_codec fanout_world fanout_tags = Inr 2 \<and>
   countRange demo_codec fanout_world fanout_tags (JStr ''x'') (JStr ''y'') False True = Inr 1 \<and>
   countOnly demo_codec fanout_world fanout_tags (JStr ''x'') = Inr 1 \<and>
   length (heap fanout_world ! i_mergedData fanout_tags) = 1"
proof -
  let ?r = "row ''r'' [JStr ''x'', JStr ''y'']"
  let ?data = "[(''Cx'', JArr [?r]), (''Cy'', JArr [?r])]"
  have o: "internal_isOpen fanout_world (i_trans fanout_tags)" by code_simp
  have g: "calcChunkedData demo_codec fanout_world fanout_tags = Inr ?data \<and>
           distinct (dict_keys (heap fanout_world ! i_mergedData fanout_tags)) \<and>
           serializeKeyToString demo_codec (JStr ''x'') (i_keyPath fanout_tags) = Inr ''Cx'' \<and>
           serializeKeyToString demo_codec (JStr ''y'') (i_keyPath fanout_tags) = Inr ''Cy''"
    by code_simp
  have e: "i_indexSchema fanout_tags = Some tags_index \<and> \<not> ix_fullText tags_index \<and> ix_multiEntry tags_index \<and>
          heap fanout_world ! i_mergedData fanout_tags = [(''Cr'', ?r)] \<and>
          getValueForSingleKeypath demo_codec ?r (i_keyPath fanout_tags) = JArr [JStr ''x'', JStr ''y''] \<and>
          arrayify demo_codec (JArr [JStr ''x'', JStr ''y'']) = [JStr ''x'', JStr ''y''] \<and>
          serializeKeyToString demo_codec (JStr ''x'') (i_keyPath fanout_tags) = Inr ''Cx'' \<and>
          serializeKeyToString demo_codec (JStr ''y'') (i_keyPath fanout_tags) = Inr ''Cy'' \<and> ''Cx'' \<noteq> ''Cy''"
    by code_simp
  have k1: "card {k \<in> set (dict_keys ?data). (k > ''Cx'' \<or> (k = ''Cx'' \<and> \<not> False)) \<and>
                         (k < ''Cy'' \<or> (k = ''Cy'' \<and> \<not> True))} = 1"
  proof -
    have "{k \<in> set (dict_keys ?data). (k > ''Cx'' \<or> (k = ''Cx'' \<and> \<not> False)) \<and>
                         (k < ''Cy'' \<or> (k = ''Cy'' \<and> \<not> True))} = {''Cx''}"
      by (auto simp: dict_keys_def)
    then show ?thesis by simp
  qed
  have k2: "card {k \<in> set (dict_keys ?data). k = ''Cx''} = 1"
  proof -
    have "{k \<in> set (dict_keys ?data). k = ''Cx''} = {''Cx''}"
      by (auto simp: dict_keys_def)
    then show ?thesis by simp
  qed
  have k3: "card (set (dict_keys ?data)) = 2"
    by (simp add: dict_keys_def)
  have l: "length (heap fanout_world ! i_mergedData fanout_tags) = 1" by code_simp
  note t = counts_are_key_counts[OF o, of demo_codec ?data "JStr ''x''" "''Cx''" "JStr ''y''" "''Cy''"
      False True tags_index "''Cr''" ?r "JStr ''x''" "JStr ''y''" "''Cx''" "''Cy''" False]
  from t g e k1 k2 k3 l show ?thesis by simp
qed

section \<open>Limit 0 and offset 0\<close>







section \<open>Well-formedness is invariant\<close>

lemma wf_iff:
  "wf w \<longleftrightarrow>
     wf_provider w \<and>
     (\<forall>i<length (store_objs w). wf_store w (store_objs w ! i)) \<and>
     (\<forall>i<length (store_objs w). \<forall>j<length (store_objs w).
        i \<noteq> j \<longrightarrow> forked (store_objs w ! i) \<longrightarrow> forked (store_objs w ! j) \<longrightarrow>
        mergedData (store_objs w ! i) \<noteq> mergedData (store_objs w ! j)) \<and>
     (\<forall>t<length (transactions w).
        distinct (map fst (t_stores (transactions w ! t))) \<and>
        (\<forall>e\<in>set (t_stores (transactions w ! t)). wf_handle w t e))"
  unfolding wf_def by auto

lemma wf_new_provider: "wf new_provider"
  by (simp add: wf_iff new_provider_def wf_provider_def data_addrs_def)


text \<open>A step that changes at most one store handle, and the heap without shrinking it.\<close>

lemma wf_store_step:
  assumes wf: "wf w"
    and s: "s < length (store_objs w)"
    and p: "p_stores w' = p_stores w"
    and t: "transactions w' = transactions w"
    and h: "length (heap w) \<le> length (heap w')"
    and so: "store_objs w' = (store_objs w)[s := st']"
    and tr: "s_trans st' = s_trans (store_objs w ! s)"
    and c: "committedStoreData st' = committedStoreData (store_objs w ! s)"
    and sc: "s_storeSchema st' = s_storeSchema (store_objs w ! s)"
    and m: "case pendingCommitDataChanges st' of
              None \<Rightarrow> mergedData st' = committedStoreData st'
            | Some q \<Rightarrow> distinct (map fst q) \<and> mergedData st' < length (heap w') \<and>
                ((forked (store_objs w ! s) \<and> mergedData st' = mergedData (store_objs w ! s)) \<or>
                 length (heap w) \<le> mergedData st')"
  shows "wf w'"
proof -
  from wf have prov: "wf_provider w"
    and st: "\<And>i. i < length (store_objs w) \<Longrightarrow> wf_store w (store_objs w ! i)"
    and dis: "\<And>i j. i < length (store_objs w) \<Longrightarrow> j < length (store_objs w) \<Longrightarrow> i \<noteq> j \<Longrightarrow>
          forked (store_objs w ! i) \<Longrightarrow> forked (store_objs w ! j) \<Longrightarrow>
          mergedData (store_objs w ! i) \<noteq> mergedData (store_objs w ! j)"
    and tx: "\<And>t. t < length (transactions w) \<Longrightarrow>
          distinct (map fst (t_stores (transactions w ! t))) \<and>
          (\<forall>e\<in>set (t_stores (transactions w ! t)). wf_handle w t e)"
    unfolding wf_iff by blast+
  have da: "data_addrs w' = data_addrs w" by (simp add: data_addrs_def p)
  have below: "a < length (heap w)" if "a \<in> set (data_addrs w)" for a
    using prov that by (simp add: wf_provider_def)
  have merged_below: "mergedData (store_objs w ! i) < length (heap w)"
    if "i < length (store_objs w)" "forked (store_objs w ! i)" for i
    using st[OF that(1)] that(2) by (auto simp: wf_store_def forked_def)
  have 1: "wf_provider w'"
    using prov h by (auto simp: wf_provider_def da p)
  have new: "wf_store w' st'"
  proof (cases "pendingCommitDataChanges st'")
    case None
    with m st[OF s] show ?thesis by (simp add: wf_store_def da t tr c)
  next
    case (Some q)
    with m have q: "distinct (map fst q)" "mergedData st' < length (heap w')"
      and alt: "(forked (store_objs w ! s) \<and> mergedData st' = mergedData (store_objs w ! s)) \<or>
                 length (heap w) \<le> mergedData st'" by simp_all
    have "mergedData st' \<notin> set (data_addrs w)"
      using alt st[OF s] below[of "mergedData st'"] by (auto simp: wf_store_def forked_def)
    with q Some st[OF s] show ?thesis by (simp add: wf_store_def da t tr c)
  qed
  have 2: "wf_store w' (store_objs w' ! i)" if "i < length (store_objs w')" for i
  proof (cases "i = s")
    case True
    with new s show ?thesis by (simp add: so)
  next
    case False
    with that have "wf_store w (store_objs w ! i)" by (simp add: so st)
    then have "wf_store w' (store_objs w ! i)"
      using h by (auto simp: wf_store_def da t split: option.splits)
    with False show ?thesis by (simp add: so)
  qed
  have 3: "mergedData (store_objs w' ! i) \<noteq> mergedData (store_objs w' ! j)"
    if "i < length (store_objs w')" "j < length (store_objs w')" "i \<noteq> j"
      "forked (store_objs w' ! i)" "forked (store_objs w' ! j)" for i j
  proof -
    have fresh: "mergedData st' \<noteq> mergedData (store_objs w ! k)"
      if "k < length (store_objs w)" "k \<noteq> s" "forked (store_objs w ! k)" "forked st'" for k
    proof -
      from that(4) obtain q where "pendingCommitDataChanges st' = Some q"
        by (auto simp: forked_def)
      with m have "(forked (store_objs w ! s) \<and> mergedData st' = mergedData (store_objs w ! s)) \<or>
                 length (heap w) \<le> mergedData st'" by simp
      then show ?thesis
        using dis[OF s that(1)] merged_below[OF that(1,3)] that(2,3) by auto
    qed
    show ?thesis
    proof (cases "i = s")
      case True
      with that fresh[of j] show ?thesis by (simp add: so)
    next
      case False
      show ?thesis
      proof (cases "j = s")
        case True
        with that fresh[of i] \<open>i \<noteq> s\<close> show ?thesis by (auto simp: so)
      next
        case False
        with that \<open>i \<noteq> s\<close> dis[of i j] show ?thesis by (simp add: so)
      qed
    qed
  qed
  have 4: "distinct (map fst (t_stores (transactions w' ! u))) \<and>
          (\<forall>e\<in>set (t_stores (transactions w' ! u)). wf_handle w' u e)"
    if "u < length (transactions w')" for u
  proof -
    from that tx[of u] have d: "distinct (map fst (t_stores (transactions w ! u)))"
      and hs: "\<And>e. e \<in> set (t_stores (transactions w ! u)) \<Longrightarrow> wf_handle w u e"
      by (simp_all add: t)
    have "wf_handle w' u e" if "e \<in> set (t_stores (transactions w ! u))" for e
      using hs[OF that] tr c sc
      by (cases "snd e = s") (auto simp: wf_handle_def so p split: option.splits)
    with d show ?thesis by (simp add: t)
  qed
  show ?thesis
    unfolding wf_iff using 1 2 3 4 by blast
qed

section \<open>Steps on one store handle\<close>

lemma wf_storeD:
  assumes "wf w" and "s < length (store_objs w)"
  shows "wf_store w (store_objs w ! s)"
  using assms unfolding wf_iff by blast

lemma wf_forkedD:
  assumes "wf w" and "s < length (store_objs w)" and "pendingCommitDataChanges (store_objs w ! s) = Some p"
  shows "distinct (map fst p)" and "mergedData (store_objs w ! s) < length (heap w)"
    and "mergedData (store_objs w ! s) \<notin> set (data_addrs w)"
  using wf_storeD[OF assms(1,2)] assms(3) by (simp_all add: wf_store_def)


lemma wf_committedD:
  assumes "wf w" and "s < length (store_objs w)"
  shows "committedStoreData (store_objs w ! s) \<in> set (data_addrs w)"
    and "committedStoreData (store_objs w ! s) < length (heap w)"
proof -
  show m: "committedStoreData (store_objs w ! s) \<in> set (data_addrs w)"
    using wf_storeD[OF assms] by (simp add: wf_store_def)
  from assms(1) have "wf_provider w" unfolding wf_iff by blast
  with m show "committedStoreData (store_objs w ! s) < length (heap w)"
    by (simp add: wf_provider_def)
qed

lemma store_step_refl:
  assumes "wf w" and "s < length (store_objs w)"
  shows "store_step s w w"
proof -
  have "case pendingCommitDataChanges (store_objs w ! s) of
           None \<Rightarrow> mergedData (store_objs w ! s) = committedStoreData (store_objs w ! s)
         | Some q \<Rightarrow>
             distinct (map fst q) \<and> mergedData (store_objs w ! s) < length (heap w) \<and>
             ((forked (store_objs w ! s) \<and> mergedData (store_objs w ! s) = mergedData (store_objs w ! s)) \<or>
              length (heap w) \<le> mergedData (store_objs w ! s))"
    using wf_storeD[OF assms] by (auto simp: wf_store_def forked_def split: option.splits)
  then show ?thesis
    unfolding store_step_def
    by (intro conjI exI[of _ "store_objs w ! s"]) simp_all
qed

lemma store_step_wf:
  assumes "wf w" and "s < length (store_objs w)" and "store_step s w w'"
  shows "wf w'"
proof -
  from assms(3) obtain st' where
    "p_stores w' = p_stores w" "transactions w' = transactions w" "length (heap w) \<le> length (heap w')"
    "store_objs w' = (store_objs w)[s := st']" "s_trans st' = s_trans (store_objs w ! s)"
    "committedStoreData st' = committedStoreData (store_objs w ! s)"
    "s_storeSchema st' = s_storeSchema (store_objs w ! s)"
    "case pendingCommitDataChanges st' of
           None \<Rightarrow> mergedData st' = committedStoreData st'
         | Some q \<Rightarrow>
             distinct (map fst q) \<and> mergedData st' < length (heap w') \<and>
             ((forked (store_objs w ! s) \<and> mergedData st' = mergedData (store_objs w ! s)) \<or>
              length (heap w) \<le> mergedData st')"
    unfolding store_step_def by blast
  then show ?thesis by (rule wf_store_step[OF assms(1,2)])
qed

lemma store_step_trans:
  assumes s: "s < length (store_objs w)"
    and 1: "store_step s w w1" and 2: "store_step s w1 w2"
  shows "store_step s w w2"
proof -
  from 1 obtain st1 where
    a: "p_stores w1 = p_stores w" "transactions w1 = transactions w" "timers w1 = timers w"
       "length (heap w) \<le> length (heap w1)"
       "p_proto w1 = p_proto w" "next_malformed w1 = next_malformed w"
    and so1: "store_objs w1 = (store_objs w)[s := st1]"
    and f1: "s_trans st1 = s_trans (store_objs w ! s)"
       "committedStoreData st1 = committedStoreData (store_objs w ! s)"
       "s_storeSchema st1 = s_storeSchema (store_objs w ! s)"
    and m1: "case pendingCommitDataChanges st1 of
           None \<Rightarrow> mergedData st1 = committedStoreData st1
         | Some q \<Rightarrow>
             distinct (map fst q) \<and> mergedData st1 < length (heap w1) \<and>
             ((forked (store_objs w ! s) \<and> mergedData st1 = mergedData (store_objs w ! s)) \<or>
              length (heap w) \<le> mergedData st1)"
    and h1: "\<And>a. a < length (heap w) \<Longrightarrow>
        \<not> (forked (store_objs w ! s) \<and> a = mergedData (store_objs w ! s)) \<Longrightarrow> heap w1 ! a = heap w ! a"
    unfolding store_step_def by blast
  have at1: "store_objs w1 ! s = st1" using s by (simp add: so1)
  from 2 obtain st2 where
    b: "p_stores w2 = p_stores w1" "transactions w2 = transactions w1" "timers w2 = timers w1"
       "length (heap w1) \<le> length (heap w2)"
       "p_proto w2 = p_proto w1" "next_malformed w2 = next_malformed w1"
    and so2: "store_objs w2 = (store_objs w1)[s := st2]"
    and f2: "s_trans st2 = s_trans st1" "committedStoreData st2 = committedStoreData st1"
       "s_storeSchema st2 = s_storeSchema st1"
    and m2: "case pendingCommitDataChanges st2 of
           None \<Rightarrow> mergedData st2 = committedStoreData st2
         | Some q \<Rightarrow>
             distinct (map fst q) \<and> mergedData st2 < length (heap w2) \<and>
             ((forked st1 \<and> mergedData st2 = mergedData st1) \<or>
              length (heap w1) \<le> mergedData st2)"
    and h2: "\<And>a. a < length (heap w1) \<Longrightarrow>
        \<not> (forked st1 \<and> a = mergedData st1) \<Longrightarrow> heap w2 ! a = heap w1 ! a"
    unfolding store_step_def at1 by blast
  have own1: "(forked (store_objs w ! s) \<and> mergedData st1 = mergedData (store_objs w ! s)) \<or>
              length (heap w) \<le> mergedData st1" if "forked st1"
    using m1 that by (auto simp: forked_def)
  have m: "case pendingCommitDataChanges st2 of
           None \<Rightarrow> mergedData st2 = committedStoreData st2
         | Some q \<Rightarrow>
             distinct (map fst q) \<and> mergedData st2 < length (heap w2) \<and>
             ((forked (store_objs w ! s) \<and> mergedData st2 = mergedData (store_objs w ! s)) \<or>
              length (heap w) \<le> mergedData st2)"
    using m2 own1 a(4) by (auto split: option.splits)
  have h: "heap w2 ! a = heap w ! a"
    if "a < length (heap w)" "\<not> (forked (store_objs w ! s) \<and> a = mergedData (store_objs w ! s))" for a
  proof -
    have "\<not> (forked st1 \<and> a = mergedData st1)"
      using own1 that by auto
    with that a(4) have "heap w2 ! a = heap w1 ! a" by (intro h2) simp_all
    with h1[OF that] show ?thesis by simp
  qed
  show ?thesis
    unfolding store_step_def
    using a b f1 f2 m h
    by (intro conjI exI[of _ st2]) (simp_all add: so1 so2)
qed

lemma checkDataClone_forked:
  "pendingCommitDataChanges (store_objs w ! s) = Some p \<Longrightarrow> checkDataClone s w = w"
  by (simp add: checkDataClone_def)

lemma checkDataClone_unforked:
  "pendingCommitDataChanges (store_objs w ! s) = None \<Longrightarrow>
   checkDataClone s w =
     w\<lparr>heap := heap w @ [heap w ! committedStoreData (store_objs w ! s)],
       store_objs := (store_objs w)[s := (store_objs w ! s)\<lparr>pendingCommitDataChanges := Some [],
                                                             mergedData := length (heap w)\<rparr>]\<rparr>"
  by (simp add: checkDataClone_def Let_def)

lemma checkDataClone_step:
  assumes "wf w" and "s < length (store_objs w)"
  shows "store_step s w (checkDataClone s w)"
proof (cases "pendingCommitDataChanges (store_objs w ! s)")
  case (Some p)
  then show ?thesis by (simp add: checkDataClone_forked store_step_refl[OF assms])
next
  case None
  show ?thesis
    unfolding store_step_def checkDataClone_unforked[OF None]
    by (intro conjI exI[of _ "(store_objs w ! s)\<lparr>pendingCommitDataChanges := Some [],
                                                  mergedData := length (heap w)\<rparr>"])
       (simp_all add: nth_append)
qed

lemma checkDataClone_forks:
  assumes "s < length (store_objs w)"
  shows "forked (store_objs (checkDataClone s w) ! s)"
  using assms by (cases "pendingCommitDataChanges (store_objs w ! s)")
    (simp_all add: checkDataClone_forked checkDataClone_unforked forked_def)

lemma distinct_keys_dict_set: "distinct (map fst d) \<Longrightarrow> distinct (map fst (dict_set k v d))"
  by (simp add: dict_set_def distinct_update)

lemma put_key_step:
  assumes "wf w" and "s < length (store_objs w)" and "forked (store_objs w ! s)"
  shows "store_step s w (put_key s pk item w)"
proof -
  from assms(3) obtain p where p: "pendingCommitDataChanges (store_objs w ! s) = Some p"
    by (auto simp: forked_def)
  note f = wf_forkedD[OF assms(1,2) p]
  show ?thesis
    unfolding store_step_def put_key_def Let_def
    using p f assms(3)
    by (intro conjI exI[of _ "(store_objs w ! s)\<lparr>pendingCommitDataChanges :=
          map_option (dict_set pk item) (pendingCommitDataChanges (store_objs w ! s))\<rparr>"])
       (simp_all add: distinct_keys_dict_set)
qed

lemma put_key_forked:
  assumes "s < length (store_objs w)" and "forked (store_objs w ! s)"
  shows "forked (store_objs (put_key s pk item w) ! s)"
  using assms by (auto simp: put_key_def forked_def Let_def)

lemma remove_key_step:
  assumes "wf w" and "s < length (store_objs w)" and "forked (store_objs w ! s)"
  shows "store_step s w (remove_key s key w)"
proof -
  from assms(3) obtain p where p: "pendingCommitDataChanges (store_objs w ! s) = Some p"
    by (auto simp: forked_def)
  note f = wf_forkedD[OF assms(1,2) p]
  show ?thesis
    unfolding store_step_def remove_key_def Let_def
    using p f assms(3)
    by (intro conjI exI[of _ "(store_objs w ! s)\<lparr>pendingCommitDataChanges :=
          map_option (dict_set key JUndefined) (pendingCommitDataChanges (store_objs w ! s))\<rparr>"])
       (simp_all add: distinct_keys_dict_set)
qed

lemma remove_key_forked:
  assumes "s < length (store_objs w)" and "forked (store_objs w ! s)"
  shows "forked (store_objs (remove_key s key w) ! s)"
  using assms by (auto simp: remove_key_def forked_def Let_def)

lemma rollback_step:
  assumes "wf w" and "s < length (store_objs w)"
  shows "store_step s w (internal_rollbackPendingData s w)"
  unfolding store_step_def internal_rollbackPendingData_def Let_def
  by (intro conjI exI[of _ "(store_objs w ! s)\<lparr>pendingCommitDataChanges := None,
        mergedData := committedStoreData (store_objs w ! s)\<rparr>"]) simp_all

lemma store_step_length:
  "store_step s w w' \<Longrightarrow> length (store_objs w') = length (store_objs w)"
  by (auto simp: store_step_def)

lemma put_items_step:
  assumes "wf w" and "s < length (store_objs w)" and "forked (store_objs w ! s)"
  shows "store_step s w (snd (put_items cd s items w))"
  using assms
proof (induction items arbitrary: w)
  case Nil
  then show ?case by (simp add: store_step_refl)
next
  case (Cons item items)
  show ?case
  proof (cases "getSerializedKeyForKeypath cd item (st_primaryKeyPath (s_storeSchema (store_objs w ! s)))")
    case (Inl err)
    then show ?thesis using Cons.prems by (simp add: store_step_refl)
  next
    case (Inr pk)
    let ?w1 = "put_key s pk item w"
    have 1: "store_step s w ?w1" by (rule put_key_step[OF Cons.prems])
    have wf1: "wf ?w1" by (rule store_step_wf[OF Cons.prems(1,2) 1])
    have s1: "s < length (store_objs ?w1)" using store_step_length[OF 1] Cons.prems(2) by simp
    have f1: "forked (store_objs ?w1 ! s)" by (rule put_key_forked[OF Cons.prems(2,3)])
    have "store_step s ?w1 (snd (put_items cd s items ?w1))"
      by (rule Cons.IH[OF wf1 s1 f1])
    with 1 have "store_step s w (snd (put_items cd s items ?w1))"
      by (rule store_step_trans[OF Cons.prems(2)])
    with Inr show ?thesis by simp
  qed
qed

lemma put_step:
  assumes "wf w" and "s < length (store_objs w)"
  shows "store_step s w (snd (put cd s itemOrItems w))"
proof (cases "internal_isOpen w (s_trans (store_objs w ! s))")
  case False
  then show ?thesis by (simp add: put_def store_step_refl[OF assms])
next
  case True
  let ?w1 = "checkDataClone s w"
  have 1: "store_step s w ?w1" by (rule checkDataClone_step[OF assms])
  have wf1: "wf ?w1" by (rule store_step_wf[OF assms 1])
  have s1: "s < length (store_objs ?w1)" using store_step_length[OF 1] assms(2) by simp
  have f1: "forked (store_objs ?w1 ! s)" by (rule checkDataClone_forks[OF assms(2)])
  have "store_step s ?w1 (snd (put_items cd s (arrayify cd itemOrItems) ?w1))"
    by (rule put_items_step[OF wf1 s1 f1])
  with 1 have "store_step s w (snd (put_items cd s (arrayify cd itemOrItems) ?w1))"
    by (rule store_step_trans[OF assms(2)])
  with True show ?thesis by (simp add: put_def)
qed

lemma fold_remove_key_step:
  assumes "wf w" and "s < length (store_objs w)" and "forked (store_objs w ! s)"
  shows "store_step s w (fold (remove_key s) ks w)"
  using assms
proof (induction ks arbitrary: w)
  case Nil
  then show ?case by (simp add: store_step_refl)
next
  case (Cons k ks)
  let ?w1 = "remove_key s k w"
  have 1: "store_step s w ?w1" by (rule remove_key_step[OF Cons.prems])
  have wf1: "wf ?w1" by (rule store_step_wf[OF Cons.prems(1,2) 1])
  have s1: "s < length (store_objs ?w1)" using store_step_length[OF 1] Cons.prems(2) by simp
  have f1: "forked (store_objs ?w1 ! s)" by (rule remove_key_forked[OF Cons.prems(2,3)])
  have "store_step s ?w1 (fold (remove_key s) ks ?w1)"
    by (rule Cons.IH[OF wf1 s1 f1])
  with 1 have "store_step s w (fold (remove_key s) ks ?w1)"
    by (rule store_step_trans[OF Cons.prems(2)])
  then show ?case by simp
qed

lemma remove_step:
  assumes "wf w" and "s < length (store_objs w)"
  shows "store_step s w (snd (remove cd s keyOrKeys w))"
proof (cases "internal_isOpen w (s_trans (store_objs w ! s))")
  case False
  then show ?thesis by (simp add: remove_def store_step_refl[OF assms])
next
  case True
  let ?w1 = "checkDataClone s w"
  have 1: "store_step s w ?w1" by (rule checkDataClone_step[OF assms])
  have wf1: "wf ?w1" by (rule store_step_wf[OF assms 1])
  have s1: "s < length (store_objs ?w1)" using store_step_length[OF 1] assms(2) by simp
  have f1: "forked (store_objs ?w1 ! s)" by (rule checkDataClone_forks[OF assms(2)])
  show ?thesis
  proof (cases "formListOfSerializedKeys cd keyOrKeys (st_primaryKeyPath (s_storeSchema (store_objs ?w1 ! s)))")
    case (Inl err)
    with True 1 show ?thesis by (simp add: remove_def Let_def)
  next
    case (Inr ks)
    have "store_step s ?w1 (fold (remove_key s) ks ?w1)"
      by (rule fold_remove_key_step[OF wf1 s1 f1])
    with 1 have "store_step s w (fold (remove_key s) ks ?w1)"
      by (rule store_step_trans[OF assms(2)])
    with True Inr show ?thesis by (simp add: remove_def Let_def)
  qed
qed

lemma distinct_keys_fold_dict_set:
  "distinct (map fst d) \<Longrightarrow> distinct (map fst (fold (\<lambda>key. dict_set key v) ks d))"
  by (induction ks arbitrary: d) (simp_all add: distinct_keys_dict_set)

lemma clear_tail_step:
  assumes "wf w" and "s < length (store_objs w)" and "forked (store_objs w ! s)"
  shows "store_step s w
     (w\<lparr>heap := heap w @ [[]],
        store_objs := (store_objs w)[s := (store_objs w ! s)\<lparr>pendingCommitDataChanges :=
             map_option (fold (\<lambda>key. dict_set key JUndefined) (dict_keys (heap w ! mergedData (store_objs w ! s))))
               (pendingCommitDataChanges (store_objs w ! s)),
           mergedData := length (heap w)\<rparr>]\<rparr>)"
proof -
  from assms(3) obtain p where p: "pendingCommitDataChanges (store_objs w ! s) = Some p"
    by (auto simp: forked_def)
  note f = wf_forkedD[OF assms(1,2) p]
  show ?thesis
    unfolding store_step_def
    using p f
    by (intro conjI exI[of _ "(store_objs w ! s)\<lparr>pendingCommitDataChanges :=
             map_option (fold (\<lambda>key. dict_set key JUndefined) (dict_keys (heap w ! mergedData (store_objs w ! s))))
               (pendingCommitDataChanges (store_objs w ! s)),
           mergedData := length (heap w)\<rparr>"])
       (simp_all add: distinct_keys_fold_dict_set nth_append)
qed

lemma clearAllData_step:
  assumes "wf w" and "s < length (store_objs w)"
  shows "store_step s w (snd (clearAllData s w))"
proof (cases "internal_isOpen w (s_trans (store_objs w ! s))")
  case False
  then show ?thesis by (simp add: clearAllData_def store_step_refl[OF assms])
next
  case True
  let ?w1 = "checkDataClone s w"
  have 1: "store_step s w ?w1" by (rule checkDataClone_step[OF assms])
  have wf1: "wf ?w1" by (rule store_step_wf[OF assms 1])
  have s1: "s < length (store_objs ?w1)" using store_step_length[OF 1] assms(2) by simp
  have f1: "forked (store_objs ?w1 ! s)" by (rule checkDataClone_forks[OF assms(2)])
  from store_step_trans[OF assms(2) 1 clear_tail_step[OF wf1 s1 f1]] True
  show ?thesis by (simp add: clearAllData_def Let_def)
qed

lemma openPrimaryKey_step:
  assumes "wf w" and "s < length (store_objs w)"
  shows "store_step s w (snd (openPrimaryKey s w))"
  using checkDataClone_step[OF assms] by (simp add: openPrimaryKey_def Let_def)

lemma openIndex_step:
  assumes "wf w" and "s < length (store_objs w)"
  shows "store_step s w (snd (openIndex s indexName w))"
  using checkDataClone_step[OF assms] store_step_refl[OF assms]
  by (simp add: openIndex_def Let_def split: option.splits)

section \<open>Commit, abort and the transaction table\<close>

lemma commit_fields [simp]:
  "p_stores (internal_commitPendingData s w) = p_stores w"
  "transactions (internal_commitPendingData s w) = transactions w"
  "timers (internal_commitPendingData s w) = timers w"
  "p_proto (internal_commitPendingData s w) = p_proto w"
  "next_malformed (internal_commitPendingData s w) = next_malformed w"
  "length (heap (internal_commitPendingData s w)) = length (heap w)"
  "store_objs (internal_commitPendingData s w) =
     (store_objs w)[s := (store_objs w ! s)\<lparr>pendingCommitDataChanges := None,
                                            mergedData := committedStoreData (store_objs w ! s)\<rparr>]"
  by (simp_all add: internal_commitPendingData_def Let_def split: option.splits)

lemma commit_wf:
  assumes "wf w" and "s < length (store_objs w)"
  shows "wf (internal_commitPendingData s w)"
  by (rule wf_store_step[OF assms, where st' = "(store_objs w ! s)\<lparr>pendingCommitDataChanges := None,
        mergedData := committedStoreData (store_objs w ! s)\<rparr>"]) simp_all

lemma fold_commit_fields [simp]:
  "p_stores (fold internal_commitPendingData ss w) = p_stores w"
  "transactions (fold internal_commitPendingData ss w) = transactions w"
  "timers (fold internal_commitPendingData ss w) = timers w"
  "p_proto (fold internal_commitPendingData ss w) = p_proto w"
  "next_malformed (fold internal_commitPendingData ss w) = next_malformed w"
  "length (heap (fold internal_commitPendingData ss w)) = length (heap w)"
  "length (store_objs (fold internal_commitPendingData ss w)) = length (store_objs w)"
  by (induction ss arbitrary: w) simp_all

lemma fold_commit_wf:
  assumes "wf w" and "\<forall>s\<in>set ss. s < length (store_objs w)"
  shows "wf (fold internal_commitPendingData ss w)"
  using assms
proof (induction ss arbitrary: w)
  case Nil
  then show ?case by simp
next
  case (Cons s ss)
  then have "wf (internal_commitPendingData s w)" by (simp add: commit_wf)
  moreover have "\<forall>s'\<in>set ss. s' < length (store_objs (internal_commitPendingData s w))"
    using Cons.prems(2) by simp
  ultimately show ?case using Cons.IH by simp
qed

lemma rollback_fields [simp]:
  "p_stores (internal_rollbackPendingData s w) = p_stores w"
  "transactions (internal_rollbackPendingData s w) = transactions w"
  "timers (internal_rollbackPendingData s w) = timers w"
  "p_proto (internal_rollbackPendingData s w) = p_proto w"
  "next_malformed (internal_rollbackPendingData s w) = next_malformed w"
  "heap (internal_rollbackPendingData s w) = heap w"
  "store_objs (internal_rollbackPendingData s w) =
     (store_objs w)[s := (store_objs w ! s)\<lparr>pendingCommitDataChanges := None,
                                            mergedData := committedStoreData (store_objs w ! s)\<rparr>]"
  by (simp_all add: internal_rollbackPendingData_def Let_def)

lemma fold_rollback_fields [simp]:
  "p_stores (fold internal_rollbackPendingData ss w) = p_stores w"
  "transactions (fold internal_rollbackPendingData ss w) = transactions w"
  "timers (fold internal_rollbackPendingData ss w) = timers w"
  "p_proto (fold internal_rollbackPendingData ss w) = p_proto w"
  "next_malformed (fold internal_rollbackPendingData ss w) = next_malformed w"
  "heap (fold internal_rollbackPendingData ss w) = heap w"
  "length (store_objs (fold internal_rollbackPendingData ss w)) = length (store_objs w)"
  by (induction ss arbitrary: w) simp_all

lemma fold_rollback_wf:
  assumes "wf w" and "\<forall>s\<in>set ss. s < length (store_objs w)"
  shows "wf (fold internal_rollbackPendingData ss w)"
  using assms
proof (induction ss arbitrary: w)
  case Nil
  then show ?case by simp
next
  case (Cons s ss)
  then have "wf (internal_rollbackPendingData s w)"
    using store_step_wf[OF _ _ rollback_step] by simp
  moreover have "\<forall>s'\<in>set ss. s' < length (store_objs (internal_rollbackPendingData s w))"
    using Cons.prems(2) by simp
  ultimately show ?case using Cons.IH by simp
qed

text \<open>A step that changes the transaction table only, adding no handle to a transaction.\<close>

lemma wf_trans_step:
  assumes wf: "wf w"
    and p: "p_stores w' = p_stores w"
    and h: "heap w' = heap w"
    and so: "store_objs w' = store_objs w"
    and len: "length (transactions w) \<le> length (transactions w')"
    and ts: "\<And>u. u < length (transactions w') \<Longrightarrow>
               distinct (map fst (t_stores (transactions w' ! u))) \<and>
               (\<forall>e\<in>set (t_stores (transactions w' ! u)).
                  u < length (transactions w) \<and> e \<in> set (t_stores (transactions w ! u)))"
  shows "wf w'"
proof -
  have da: "data_addrs w' = data_addrs w" by (simp add: data_addrs_def p)
  have 1: "wf_provider w'"
    using wf by (simp add: wf_iff wf_provider_def da p h)
  have 2: "wf_store w' (store_objs w' ! i)" if "i < length (store_objs w')" for i
    using wf_storeD[OF wf, of i] that len
    by (auto simp: wf_store_def da so h split: option.splits)
  have 3: "mergedData (store_objs w' ! i) \<noteq> mergedData (store_objs w' ! j)"
    if "i < length (store_objs w')" "j < length (store_objs w')" "i \<noteq> j"
      "forked (store_objs w' ! i)" "forked (store_objs w' ! j)" for i j
    using wf that unfolding wf_iff so by blast
  have 4: "distinct (map fst (t_stores (transactions w' ! u))) \<and>
          (\<forall>e\<in>set (t_stores (transactions w' ! u)). wf_handle w' u e)"
    if "u < length (transactions w')" for u
  proof -
    have "wf_handle w' u e" if e: "e \<in> set (t_stores (transactions w' ! u))" for e
    proof -
      from ts[OF \<open>u < length (transactions w')\<close>] e
      have "u < length (transactions w)" "e \<in> set (t_stores (transactions w ! u))" by blast+
      with wf have "wf_handle w u e" unfolding wf_iff by blast
      then show ?thesis by (simp add: wf_handle_def so p split: option.splits)
    qed
    with ts[OF that] show ?thesis by blast
  qed
  show ?thesis unfolding wf_iff using 1 2 3 4 by blast
qed

lemma wf_handles_valid:
  assumes "wf w" and "t < length (transactions w)"
  shows "\<forall>s\<in>set (map snd (t_stores (transactions w ! t))). s < length (store_objs w)"
  using assms unfolding wf_iff wf_handle_def by fastforce

lemma openTransaction_wf:
  assumes "wf w"
  shows "wf (snd (openTransaction names writeNeeded w))"
proof (rule wf_trans_step[OF assms])
  fix u
  assume "u < length (transactions (snd (openTransaction names writeNeeded w)))"
  then have u: "u < Suc (length (transactions w))" by (simp add: openTransaction_def Let_def)
  show "distinct (map fst (t_stores (transactions (snd (openTransaction names writeNeeded w)) ! u))) \<and>
        (\<forall>e\<in>set (t_stores (transactions (snd (openTransaction names writeNeeded w)) ! u)).
            u < length (transactions w) \<and> e \<in> set (t_stores (transactions w ! u)))"
  proof (cases "u < length (transactions w)")
    case True
    with assms show ?thesis
      unfolding wf_iff by (simp add: openTransaction_def Let_def nth_append)
  next
    case False
    with u have "u = length (transactions w)" by simp
    then show ?thesis by (simp add: openTransaction_def Let_def)
  qed
qed (simp_all add: openTransaction_def Let_def)

lemma abort_wf:
  assumes "wf w" and "t < length (transactions w)"
  shows "wf (abort t w)"
proof -
  let ?w1 = "fold internal_rollbackPendingData (map snd (t_stores (transactions w ! t))) w"
  have wf1: "wf ?w1"
    by (rule fold_rollback_wf[OF assms(1) wf_handles_valid[OF assms]])
  show ?thesis
  proof (rule wf_trans_step[OF wf1])
    fix u
    assume "u < length (transactions (abort t w))"
    then have u: "u < length (transactions w)" by (simp add: abort_def Let_def)
    show "distinct (map fst (t_stores (transactions (abort t w) ! u))) \<and>
        (\<forall>e\<in>set (t_stores (transactions (abort t w) ! u)).
            u < length (transactions ?w1) \<and> e \<in> set (t_stores (transactions ?w1 ! u)))"
      using u assms unfolding wf_iff
      by (cases "u = t") (simp_all add: abort_def Let_def)
  qed (simp_all add: abort_def Let_def)
qed

lemma fire_wf:
  assumes "wf w" and "t < length (transactions w)"
  shows "wf (fire t w)"
proof (cases "openTimer (transactions w ! t)")
  case None
  with assms show ?thesis by (simp add: fire_def)
next
  case (Some h)
  show ?thesis
  proof (cases "h \<in> set (timers w)")
    case False
    with Some assms show ?thesis by (simp add: fire_def)
  next
    case True
    let ?w1 = "w\<lparr>timers := removeAll h (timers w),
                 transactions := (transactions w)[t := (transactions w ! t)\<lparr>openTimer := None\<rparr>]\<rparr>"
    let ?w2 = "commitTransaction t ?w1"
    let ?w3 = "?w2\<lparr>transactions := (transactions ?w2)[t := (transactions ?w2 ! t)\<lparr>t_outcome := Completed\<rparr>]\<rparr>"
    have ts: "t_stores (transactions ?w1 ! u) = t_stores (transactions w ! u)" for u
      using assms(2) by (cases "u = t") simp_all
    have wf1: "wf ?w1"
    proof (rule wf_trans_step[OF assms(1)])
      fix u
      assume "u < length (transactions ?w1)"
      then have "u < length (transactions w)" by simp
      with assms(1) show "distinct (map fst (t_stores (transactions ?w1 ! u))) \<and>
        (\<forall>e\<in>set (t_stores (transactions ?w1 ! u)).
            u < length (transactions w) \<and> e \<in> set (t_stores (transactions w ! u)))"
        unfolding wf_iff ts by simp
    qed simp_all
    have t1: "t < length (transactions ?w1)" using assms(2) by simp
    have wf2: "wf ?w2"
      unfolding commitTransaction_def
      by (rule fold_commit_wf[OF wf1 wf_handles_valid[OF wf1 t1]])
    have tr2: "transactions ?w2 = transactions ?w1"
      by (simp add: commitTransaction_def)
    have wf3: "wf ?w3"
    proof (rule wf_trans_step[OF wf2])
      fix u
      assume "u < length (transactions ?w3)"
      then have u: "u < length (transactions ?w2)" by simp
      have "t_stores (transactions ?w3 ! u) = t_stores (transactions ?w2 ! u)"
        using u by (cases "u = t") simp_all
      with wf2 u show "distinct (map fst (t_stores (transactions ?w3 ! u))) \<and>
        (\<forall>e\<in>set (t_stores (transactions ?w3 ! u)).
            u < length (transactions ?w2) \<and> e \<in> set (t_stores (transactions ?w2 ! u)))"
        unfolding wf_iff by simp
    qed simp_all
    from Some True have "fire t w = ?w3" by (simp add: fire_def Let_def)
    with wf3 show ?thesis by simp
  qed
qed

section \<open>Opening the provider and obtaining store handles\<close>

lemma update_addrs:
  "e \<in> set (AList.update k \<lparr>sd_schema = sch, sd_data = n\<rparr> p) \<Longrightarrow>
   sd_data (snd e) = n \<or> e \<in> set p"
  by (induction p) (auto split: if_splits)

lemma update_fresh_addr:
  assumes "distinct (map (\<lambda>e. sd_data (snd e)) p)" and "\<forall>e\<in>set p. sd_data (snd e) < n"
  shows "distinct (map (\<lambda>e. sd_data (snd e)) (AList.update k \<lparr>sd_schema = sch, sd_data = n\<rparr> p)) \<and>
         (\<forall>e\<in>set (AList.update k \<lparr>sd_schema = sch, sd_data = n\<rparr> p). sd_data (snd e) < Suc n)"
  using assms
proof (induction p)
  case Nil
  then show ?case by simp
next
  case (Cons a p)
  have "sd_data (snd a) \<noteq> sd_data (snd e)"
    if "e \<in> set (AList.update k \<lparr>sd_schema = sch, sd_data = n\<rparr> p)" for e
    using update_addrs[OF that] Cons.prems by auto
  with Cons show ?case by (auto simp: less_Suc_eq image_iff)
qed

lemma open_store_provider:
  assumes "wf_provider w"
  shows "wf_provider (open_store sch w)"
proof (cases "st_name sch = ''__proto__''")
  case True
  with assms show ?thesis
    by (auto simp: wf_provider_def data_addrs_def open_store_def less_Suc_eq)
next
  case False
  from assms have d: "distinct (map fst (p_stores w))"
    and a: "distinct (map (\<lambda>e. sd_data (snd e)) (p_stores w))"
    and b: "\<forall>e\<in>set (p_stores w). sd_data (snd e) < length (heap w)"
    by (simp_all add: wf_provider_def data_addrs_def)
  from update_fresh_addr[OF a b, of "st_name sch" sch] d False show ?thesis
    by (simp add: wf_provider_def data_addrs_def open_store_def dict_set_def distinct_update)
qed

lemma open_store_fields [simp]:
  "transactions (open_store sch w) = transactions w"
  "store_objs (open_store sch w) = store_objs w"
  "timers (open_store sch w) = timers w"
  by (simp_all add: open_store_def)

lemma open_provider_fresh:
  assumes "wf_provider w" and "store_objs w = []" and "transactions w = []"
  shows "wf_provider (open_provider schema w) \<and> store_objs (open_provider schema w) = [] \<and>
         transactions (open_provider schema w) = []"
  using assms unfolding open_provider_def
  by (induction schema arbitrary: w) (simp_all add: open_store_provider)

lemma wf_open_provider: "wf (open_provider schema new_provider)"
proof -
  have "wf_provider new_provider" "store_objs new_provider = []" "transactions new_provider = []"
    by (simp_all add: new_provider_def wf_provider_def data_addrs_def)
  from open_provider_fresh[OF this, of schema] show ?thesis
    by (simp add: wf_iff)
qed

text \<open>
  The lookups in the two \<open>_stores\<close> objects: a store handle is found as an own property
  only, and for a name that \<open>Object.prototype\<close> has no member of, the provider finds a
  \<open>StoreData\<close> as an own property only.
\<close>

lemma stores_lookup_Handle:
  "stores_lookup tr name = Some (Handle s) \<longleftrightarrow> map_of (t_stores tr) name = Some s"
  by (simp add: stores_lookup_def split: option.splits)

lemma stores_lookup_None:
  "stores_lookup tr name = None \<longleftrightarrow>
     map_of (t_stores tr) name = None \<and> map_of (t_malformed tr) name = None \<and>
     name \<notin> set object_prototype_names"
  by (simp add: stores_lookup_def split: option.splits)

lemma proto_is_inherited: "''__proto__'' \<in> set object_prototype_names"
  by (simp add: object_prototype_names_def)

lemma internal_getStore_StoreInfo:
  assumes "name \<notin> set object_prototype_names"
  shows "internal_getStore w name = Some (StoreInfo sd) \<longleftrightarrow> map_of (p_stores w) name = Some sd"
proof -
  from assms proto_is_inherited have "name \<noteq> ''__proto__''" by blast
  with assms show ?thesis
    by (simp add: internal_getStore_def split: option.splits)
qed

lemma getStore_cases [case_names denied cached other missing created malformed]:
  obtains
    "storeName \<notin> set (storeNames (transactions w ! t))"
      "getStore t storeName w =
         (Inl (NotFound (''Store not found in transaction-scoped store list: '' @ storeName)), w)"
  | s where "storeName \<in> set (storeNames (transactions w ! t))"
      "map_of (t_stores (transactions w ! t)) storeName = Some s"
      "getStore t storeName w = (Inr (Handle s), w)"
  | r where "storeName \<in> set (storeNames (transactions w ! t))"
      "map_of (t_stores (transactions w ! t)) storeName = None"
      "stores_lookup (transactions w ! t) storeName = Some r"
      "\<And>s. r \<noteq> Handle s"
      "getStore t storeName w = (Inr r, w)"
  | "storeName \<in> set (storeNames (transactions w ! t))"
      "stores_lookup (transactions w ! t) storeName = None"
      "internal_getStore w storeName = None"
      "getStore t storeName w = (Inl (NotFound (''Store not found: '' @ storeName)), w)"
  | store where "storeName \<in> set (storeNames (transactions w ! t))"
      "map_of (t_stores (transactions w ! t)) storeName = None"
      "map_of (p_stores w) storeName = Some store"
      "stores_lookup (transactions w ! t) storeName = None"
      "getStore t storeName w =
         (Inr (Handle (length (store_objs w))),
          w\<lparr>store_objs := store_objs w @
               [\<lparr>s_trans = t, pendingCommitDataChanges = None,
                 committedStoreData = sd_data store, mergedData = sd_data store,
                 s_storeSchema = sd_schema store\<rparr>],
            transactions := (transactions w)
               [t := (transactions w ! t)\<lparr>t_stores :=
                  dict_set storeName (length (store_objs w)) (t_stores (transactions w ! t))\<rparr>]\<rparr>)"
  | m where "storeName \<in> set (storeNames (transactions w ! t))"
      "stores_lookup (transactions w ! t) storeName = None"
      "internal_getStore w storeName = Some m"
      "\<And>store. m \<noteq> StoreInfo store"
      "getStore t storeName w =
         (Inr (Malformed (next_malformed w)),
          w\<lparr>next_malformed := Suc (next_malformed w),
            transactions := (transactions w)
               [t := (transactions w ! t)\<lparr>t_malformed :=
                  dict_set storeName (next_malformed w) (t_malformed (transactions w ! t))\<rparr>]\<rparr>)"
proof (cases "storeName \<in> set (storeNames (transactions w ! t))")
  case False
  then show ?thesis using that(1) by (simp add: getStore_def Let_def)
next
  case granted: True
  show ?thesis
  proof (cases "stores_lookup (transactions w ! t) storeName")
    case (Some r)
    then have g: "getStore t storeName w = (Inr r, w)"
      using granted by (simp add: getStore_def Let_def)
    show ?thesis
    proof (cases r)
      case (Handle s)
      with Some g granted that(2)[of s] show ?thesis by (simp add: stores_lookup_Handle)
    next
      case (Inherited n)
      with Some g granted that(3)[of r] show ?thesis
        by (auto simp: stores_lookup_def split: option.splits)
    next
      case (Malformed n)
      with Some g granted that(3)[of r] show ?thesis
        by (auto simp: stores_lookup_def split: option.splits)
    qed
  next
    case None
    then have own: "map_of (t_stores (transactions w ! t)) storeName = None"
      and plain: "storeName \<notin> set object_prototype_names"
      by (simp_all add: stores_lookup_None)
    show ?thesis
    proof (cases "internal_getStore w storeName")
      case missing: None
      with None granted that(4) show ?thesis by (simp add: getStore_def Let_def)
    next
      case (Some m)
      show ?thesis
      proof (cases m)
        case (StoreInfo store)
        with Some plain have "map_of (p_stores w) storeName = Some store"
          by (simp add: internal_getStore_StoreInfo)
        with StoreInfo Some None granted own that(5)[of store] show ?thesis
          by (simp add: getStore_def Let_def)
      next
        case (InheritedMember n)
        with Some None granted that(6)[of m] show ?thesis by (simp add: getStore_def Let_def)
      next
        case (PrototypeField n)
        with Some None granted that(6)[of m] show ?thesis by (simp add: getStore_def Let_def)
      qed
    qed
  qed
qed

lemma set_update_fresh:
  "map_of al k = None \<Longrightarrow> set (AList.update k v al) = insert (k, v) (set al)"
  by (induction al) (auto split: if_splits)

lemma map_of_data_addr:
  "map_of (p_stores w) name = Some store \<Longrightarrow> sd_data store \<in> set (data_addrs w)"
  by (force simp: data_addrs_def dest: map_of_SomeD)

lemma getStore_created_wf:
  assumes wf: "wf w" and t: "t < length (transactions w)"
    and none: "map_of (t_stores (transactions w ! t)) storeName = None"
    and store: "map_of (p_stores w) storeName = Some store"
    and plain: "storeName \<notin> set object_prototype_names"
    and w': "w' = w\<lparr>store_objs := store_objs w @
               [\<lparr>s_trans = t, pendingCommitDataChanges = None,
                 committedStoreData = sd_data store, mergedData = sd_data store,
                 s_storeSchema = sd_schema store\<rparr>],
            transactions := (transactions w)
               [t := (transactions w ! t)\<lparr>t_stores :=
                  dict_set storeName (length (store_objs w)) (t_stores (transactions w ! t))\<rparr>]\<rparr>"
  shows "wf w'"
proof -
  let ?n = "length (store_objs w)"
  let ?new = "\<lparr>s_trans = t, pendingCommitDataChanges = None,
                 committedStoreData = sd_data store, mergedData = sd_data store,
                 s_storeSchema = sd_schema store\<rparr>"
  have da: "data_addrs w' = data_addrs w" by (simp add: data_addrs_def w')
  have so: "store_objs w' = store_objs w @ [?new]" by (simp add: w')
  have old: "store_objs w' ! i = store_objs w ! i" if "i < ?n" for i
    using that by (simp add: so nth_append)
  have new: "store_objs w' ! ?n = ?new" by (simp add: so)
  have ph: "p_stores w' = p_stores w" "heap w' = heap w" by (simp_all add: w')
  have tl: "length (transactions w') = length (transactions w)" by (simp add: w')
  have trs: "transactions w' = (transactions w)
               [t := (transactions w ! t)\<lparr>t_stores :=
                  dict_set storeName (length (store_objs w)) (t_stores (transactions w ! t))\<rparr>]"
    by (simp add: w')
  have 1: "wf_provider w'"
    using wf by (simp add: wf_iff wf_provider_def da ph)
  have 2: "wf_store w' (store_objs w' ! i)" if "i < length (store_objs w')" for i
  proof (cases "i < ?n")
    case True
    from wf_storeD[OF wf True] show ?thesis
      by (simp add: old[OF True] wf_store_def da ph tl split: option.splits)
  next
    case False
    with that have "i = ?n" by (simp add: so)
    then show ?thesis
      using t map_of_data_addr[of w storeName store] store
      by (simp add: new wf_store_def da tl)
  qed
  have 3: "mergedData (store_objs w' ! i) \<noteq> mergedData (store_objs w' ! j)"
    if "i < length (store_objs w')" "j < length (store_objs w')" "i \<noteq> j"
      "forked (store_objs w' ! i)" "forked (store_objs w' ! j)" for i j
  proof -
    have "i < ?n" using that(1,4) by (cases "i = ?n") (simp_all add: new forked_def so)
    moreover have "j < ?n" using that(2,5) by (cases "j = ?n") (simp_all add: new forked_def so)
    ultimately show ?thesis
      using wf that(3,4,5) unfolding wf_iff by (simp add: old)
  qed
  have 4: "distinct (map fst (t_stores (transactions w' ! u))) \<and>
          (\<forall>e\<in>set (t_stores (transactions w' ! u)). wf_handle w' u e)"
    if "u < length (transactions w')" for u
  proof -
    from that have u: "u < length (transactions w)" by (simp add: tl)
    from wf u have d: "distinct (map fst (t_stores (transactions w ! u)))"
      and hs: "\<And>e. e \<in> set (t_stores (transactions w ! u)) \<Longrightarrow> wf_handle w u e"
      unfolding wf_iff by blast+
    have keep: "wf_handle w' u e" if "wf_handle w u e" for e
      using that by (auto simp: wf_handle_def old ph split: option.splits) (simp add: so)
    show ?thesis
    proof (cases "u = t")
      case False
      with u have "t_stores (transactions w' ! u) = t_stores (transactions w ! u)" by (simp add: trs)
      with d hs keep show ?thesis by simp
    next
      case True
      from t have ts: "t_stores (transactions w' ! t) = dict_set storeName ?n (t_stores (transactions w ! t))"
        by (simp add: trs)
      have "wf_handle w' t (storeName, ?n)"
        using store plain by (simp add: wf_handle_def new ph) (simp add: so)
      with hs keep True d show ?thesis
        by (auto simp: ts dict_set_def distinct_update set_update_fresh[OF none])
    qed
  qed
  show ?thesis unfolding wf_iff using 1 2 3 4 by blast
qed

lemma getStore_malformed_wf:
  assumes wf: "wf w" and t: "t < length (transactions w)"
  shows "wf (w\<lparr>next_malformed := n,
              transactions := (transactions w)[t := (transactions w ! t)\<lparr>t_malformed := d\<rparr>]\<rparr>)"
proof (rule wf_trans_step[OF wf])
  fix u
  assume "u < length (transactions (w\<lparr>next_malformed := n,
              transactions := (transactions w)[t := (transactions w ! t)\<lparr>t_malformed := d\<rparr>]\<rparr>))"
  then have u: "u < length (transactions w)" by simp
  have "t_stores (((transactions w)[t := (transactions w ! t)\<lparr>t_malformed := d\<rparr>]) ! u) =
        t_stores (transactions w ! u)"
    using u by (cases "u = t") simp_all
  with wf u show "distinct (map fst (t_stores (transactions (w\<lparr>next_malformed := n,
              transactions := (transactions w)[t := (transactions w ! t)\<lparr>t_malformed := d\<rparr>]\<rparr>) ! u))) \<and>
        (\<forall>e\<in>set (t_stores (transactions (w\<lparr>next_malformed := n,
              transactions := (transactions w)[t := (transactions w ! t)\<lparr>t_malformed := d\<rparr>]\<rparr>) ! u)).
            u < length (transactions w) \<and> e \<in> set (t_stores (transactions w ! u)))"
    unfolding wf_iff by simp
qed simp_all

lemma getStore_wf:
  assumes "wf w" and "t < length (transactions w)"
  shows "wf (snd (getStore t storeName w))"
proof (cases rule: getStore_cases[of storeName w t])
  case (created store)
  from created(4) have "storeName \<notin> set object_prototype_names"
    by (simp add: stores_lookup_None)
  from getStore_created_wf[OF assms created(2,3) this refl] created(5) show ?thesis by simp
next
  case (malformed m)
  with getStore_malformed_wf[OF assms] show ?thesis by simp
qed (simp_all add: assms)

section \<open>Every reachable state is well-formed\<close>

lemma exec_wf:
  assumes "wf w"
  shows "wf (exec cd op w)"
proof (cases op)
  case (OpenTransaction names writeNeeded)
  then show ?thesis by (simp add: openTransaction_wf[OF assms])
next
  case (GetStore t name)
  then show ?thesis by (simp add: getStore_wf assms)
next
  case (Abort t)
  then show ?thesis by (simp add: abort_wf assms)
next
  case (Fire t)
  then show ?thesis by (simp add: fire_wf assms)
next
  case (Put s v)
  then show ?thesis using store_step_wf[OF assms _ put_step[OF assms]] assms by simp
next
  case (Remove s v)
  then show ?thesis using store_step_wf[OF assms _ remove_step[OF assms]] assms by simp
next
  case (ClearAllData s)
  then show ?thesis using store_step_wf[OF assms _ clearAllData_step[OF assms]] assms by simp
next
  case (OpenPrimaryKey s)
  then show ?thesis using store_step_wf[OF assms _ openPrimaryKey_step[OF assms]] assms by simp
next
  case (OpenIndex s indexName)
  then show ?thesis using store_step_wf[OF assms _ openIndex_step[OF assms]] assms by simp
qed

lemma run_wf: "wf w \<Longrightarrow> wf (run cd ops w)"
  unfolding run_def by (induction ops arbitrary: w) (simp_all add: exec_wf)

lemma reachable_wf: "wf (run cd ops (open_provider schema new_provider))"
  by (rule run_wf[OF wf_open_provider])

section \<open>Operations on a closed transaction\<close>

lemma closed_store_operations:
  assumes "\<not> internal_isOpen w (s_trans (store_objs w ! s))"
  shows "get cd w s key = Inl TransactionClosed"
    and "getMultiple cd w s keyOrKeys = Inl TransactionClosed"
    and "put cd s itemOrItems w = (Inl TransactionClosed, w)"
    and "remove cd s keyOrKeys w = (Inl TransactionClosed, w)"
    and "clearAllData s w = (Inl TransactionClosed, w)"
  using assms by (simp_all add: get_def getMultiple_def put_def remove_def clearAllData_def)

lemma closed_index_queries:
  assumes "\<not> internal_isOpen w (i_trans ix)"
  shows "getAll cd w ix reverse limit offset = Inl TransactionClosed"
    and "getOnly cd w ix key reverse limit offset = Inl TransactionClosed"
    and "getRange cd w ix lo hi lx hx reverse limit offset = Inl TransactionClosed"
    and "countAll cd w ix = Inl TransactionClosed"
    and "countOnly cd w ix key = Inl TransactionClosed"
    and "countRange cd w ix lo hi lx hx = Inl TransactionClosed"
  using assms by (simp_all add: getAll_def getOnly_def getRange_def countAll_def countOnly_def countRange_def)

text \<open>Once the scheduled commit has run, the transaction is closed.\<close>

lemma fire_transactions:
  assumes "t < length (transactions w)" and "openTimer (transactions w ! t) = Some h" and "h \<in> set (timers w)"
  shows "transactions (fire t w) =
     (transactions w)[t := (transactions w ! t)\<lparr>openTimer := None, t_outcome := Completed\<rparr>]"
  using assms by (simp add: fire_def Let_def commitTransaction_def)

lemma fire_closes:
  assumes "t < length (transactions w)" and "openTimer (transactions w ! t) = Some h" and "h \<in> set (timers w)"
  shows "\<not> internal_isOpen (fire t w) t"
  using assms(1) by (simp add: fire_transactions[OF assms] internal_isOpen_def)

text \<open>\<open>abort\<close> leaves \<open>_openTimer\<close> as it was, so \<open>internal_isOpen\<close> answers as before.\<close>

lemma abort_transactions:
  "transactions (abort t w) =
     (transactions w)[t := (transactions w ! t)\<lparr>t_stores := [], t_malformed := [],
        t_outcome := Failed ''InMemoryTransaction Aborted''\<rparr>]"
  by (simp add: abort_def Let_def)

lemma abort_leaves_open: "internal_isOpen (abort t w) u = internal_isOpen w u"
proof (cases "t < length (transactions w) \<and> u = t")
  case True
  then show ?thesis by (simp add: abort_transactions internal_isOpen_def)
next
  case False
  then have "transactions (abort t w) ! u = transactions w ! u"
    by (cases "t < length (transactions w)") (auto simp: abort_transactions list_update_beyond)
  then show ?thesis by (simp add: internal_isOpen_def)
qed

lemma aborted_world_value:
  "aborted_world =
     \<lparr>heap =
        [[], [],
         [(''Cb'', row ''b'' [JStr ''x'', JStr ''y'']), (''Ca'', row ''a'' []), (''Cc'', row ''c'' [JStr ''y''])],
         [(''A'', JStr [])]],
      p_stores =
        [(''s'', \<lparr>sd_schema = demo_schema ! 0, sd_data = 0\<rparr>),
         (''t'', \<lparr>sd_schema = demo_schema ! 1, sd_data = 1\<rparr>)],
      transactions =
        [\<lparr>openTimer = Some 1, t_stores = [], storeNames = [''s'', ''t''],
           t_outcome = Failed ''InMemoryTransaction Aborted'', t_malformed = []\<rparr>],
      store_objs =
        [\<lparr>s_trans = 0, pendingCommitDataChanges = None,
           committedStoreData = 0, mergedData = 0, s_storeSchema = demo_schema ! 0\<rparr>,
         \<lparr>s_trans = 0, pendingCommitDataChanges = None,
           committedStoreData = 1, mergedData = 1, s_storeSchema = demo_schema ! 1\<rparr>],
      timers = [], p_proto = None, next_malformed = 0\<rparr>"
  by code_simp

text \<open>
  Claim C1 on the first session, after \<open>abort()\<close>: the commit is cancelled and the failure
  reported, yet \<open>internal_isOpen\<close> still holds, and the operations on the store handles
  and on the index obtained before the abort resolve instead of being rejected with
  \<open>TransactionClosed\<close>.
\<close>

theorem operations_after_abort_resolve:
  "timers aborted_world = [] \<and>
   t_outcome (transactions aborted_world ! 0) = Failed ''InMemoryTransaction Aborted'' \<and>
   internal_isOpen aborted_world 0 \<and>
   get demo_codec aborted_world 0 (JStr ''a'') = Inr JUndefined \<and>
   getMultiple demo_codec aborted_world 0 (JArr [JStr ''a'', JStr ''b'']) = Inr [] \<and>
   fst (put demo_codec 0 (row ''z'' []) aborted_world) = Inr () \<and>
   get demo_codec (snd (put demo_codec 0 (row ''z'' []) aborted_world)) 0 (JStr ''z'') = Inr (row ''z'' []) \<and>
   fst (remove demo_codec 0 (JStr ''a'') aborted_world) = Inr () \<and>
   fst (clearAllData 0 aborted_world) = Inr () \<and>
   getAll demo_codec aborted_world demo_primary False None None =
     Inr [row ''a'' [], row ''b'' [JStr ''x'', JStr ''y''], row ''c'' [JStr ''y'']] \<and>
   getOnly demo_codec aborted_world demo_primary (JStr ''a'') False None None = Inr [row ''a'' []] \<and>
   getRange demo_codec aborted_world demo_primary (JStr ''a'') (JStr ''b'') False False False None None =
     Inr [row ''a'' [], row ''b'' [JStr ''x'', JStr ''y'']] \<and>
   countAll demo_codec aborted_world demo_primary = Inr 3 \<and>
   countOnly demo_codec aborted_world demo_primary (JStr ''a'') = Inr 1 \<and>
   countRange demo_codec aborted_world demo_primary (JStr ''a'') (JStr ''b'') False False = Inr 2"
  by code_simp

section \<open>Only a commit changes the committed rows\<close>

lemma store_step_committed:
  assumes "wf w" and "s < length (store_objs w)" and "store_step s w w'"
    and "a \<in> set (data_addrs w)"
  shows "heap w' ! a = heap w ! a"
proof -
  from assms(1) have "wf_provider w" unfolding wf_iff by blast
  with assms(4) have a: "a < length (heap w)" by (simp add: wf_provider_def)
  have "\<not> (forked (store_objs w ! s) \<and> a = mergedData (store_objs w ! s))"
    using wf_forkedD(3)[OF assms(1,2)] assms(4) by (auto simp: forked_def)
  with assms(3) a show ?thesis unfolding store_step_def by blast
qed

lemma getStore_heap [simp]: "heap (snd (getStore t name w)) = heap w"
  by (cases rule: getStore_cases[of name w t]) simp_all

lemma getStore_p_stores [simp]: "p_stores (snd (getStore t name w)) = p_stores w"
  by (cases rule: getStore_cases[of name w t]) simp_all

lemma abort_heap [simp]: "heap (abort t w) = heap w"
  by (simp add: abort_def Let_def)

lemma abort_p_stores [simp]: "p_stores (abort t w) = p_stores w"
  by (simp add: abort_def Let_def)

lemma abort_store_objs:
  "store_objs (abort t w) =
     store_objs (fold internal_rollbackPendingData (map snd (t_stores (transactions w ! t))) w)"
  by (simp add: abort_def Let_def)

lemma fire_p_stores [simp]: "p_stores (fire t w) = p_stores w"
  by (simp add: fire_def Let_def commitTransaction_def split: option.splits)

lemma openTransaction_fields [simp]:
  "heap (snd (openTransaction names writeNeeded w)) = heap w"
  "p_stores (snd (openTransaction names writeNeeded w)) = p_stores w"
  "store_objs (snd (openTransaction names writeNeeded w)) = store_objs w"
  by (simp_all add: openTransaction_def Let_def)

text \<open>What every call on a store handle is, as a step.\<close>

lemma exec_store_step:
  assumes "wf w" and "s < length (store_objs w)"
    and "op = Put s v \<or> op = Remove s v \<or> op = ClearAllData s \<or> op = OpenPrimaryKey s \<or>
         op = OpenIndex s indexName"
  shows "store_step s w (exec cd op w)"
  using assms(3) assms(2)
    put_step[OF assms(1,2)] remove_step[OF assms(1,2)] clearAllData_step[OF assms(1,2)]
    openPrimaryKey_step[OF assms(1,2)] openIndex_step[OF assms(1,2)]
  by auto

lemma exec_p_stores:
  assumes "wf w"
  shows "p_stores (exec cd op w) = p_stores w"
proof (cases op)
  case (Put s v)
  show ?thesis
  proof (cases "s < length (store_objs w)")
    case True
    from put_step[OF assms True, of cd v] Put True show ?thesis by (simp add: store_step_def)
  qed (simp add: Put)
next
  case (Remove s v)
  show ?thesis
  proof (cases "s < length (store_objs w)")
    case True
    from remove_step[OF assms True, of cd v] Remove True show ?thesis by (simp add: store_step_def)
  qed (simp add: Remove)
next
  case (ClearAllData s)
  show ?thesis
  proof (cases "s < length (store_objs w)")
    case True
    from clearAllData_step[OF assms True] ClearAllData True show ?thesis by (simp add: store_step_def)
  qed (simp add: ClearAllData)
next
  case (OpenPrimaryKey s)
  show ?thesis
  proof (cases "s < length (store_objs w)")
    case True
    from openPrimaryKey_step[OF assms True] OpenPrimaryKey True show ?thesis by (simp add: store_step_def)
  qed (simp add: OpenPrimaryKey)
next
  case (OpenIndex s indexName)
  show ?thesis
  proof (cases "s < length (store_objs w)")
    case True
    from openIndex_step[OF assms True, of indexName] OpenIndex True show ?thesis by (simp add: store_step_def)
  qed (simp add: OpenIndex)
qed simp_all

lemma exec_committed:
  assumes "wf w" and "\<not> is_commit op" and "a \<in> set (data_addrs w)"
  shows "heap (exec cd op w) ! a = heap w ! a"
proof (cases op)
  case (Fire t)
  with assms(2) show ?thesis by simp
next
  case (Put s v)
  show ?thesis
  proof (cases "s < length (store_objs w)")
    case True
    from store_step_committed[OF assms(1) True put_step[OF assms(1) True] assms(3), of cd v] Put True
    show ?thesis by simp
  qed (simp add: Put)
next
  case (Remove s v)
  show ?thesis
  proof (cases "s < length (store_objs w)")
    case True
    from store_step_committed[OF assms(1) True remove_step[OF assms(1) True] assms(3), of cd v] Remove True
    show ?thesis by simp
  qed (simp add: Remove)
next
  case (ClearAllData s)
  show ?thesis
  proof (cases "s < length (store_objs w)")
    case True
    from store_step_committed[OF assms(1) True clearAllData_step[OF assms(1) True] assms(3)] ClearAllData True
    show ?thesis by simp
  qed (simp add: ClearAllData)
next
  case (OpenPrimaryKey s)
  show ?thesis
  proof (cases "s < length (store_objs w)")
    case True
    from store_step_committed[OF assms(1) True openPrimaryKey_step[OF assms(1) True] assms(3)] OpenPrimaryKey True
    show ?thesis by simp
  qed (simp add: OpenPrimaryKey)
next
  case (OpenIndex s indexName)
  show ?thesis
  proof (cases "s < length (store_objs w)")
    case True
    from store_step_committed[OF assms(1) True openIndex_step[OF assms(1) True] assms(3), of indexName]
      OpenIndex True
    show ?thesis by simp
  qed (simp add: OpenIndex)
qed simp_all

lemma run_Cons: "run cd (op # ops) w = run cd ops (exec cd op w)"
  by (simp add: run_def)

lemma run_Nil: "run cd [] w = w"
  by (simp add: run_def)

lemma run_committed:
  assumes "wf w" and "\<forall>op\<in>set ops. \<not> is_commit op"
  shows "p_stores (run cd ops w) = p_stores w \<and>
         (\<forall>a\<in>set (data_addrs w). heap (run cd ops w) ! a = heap w ! a)"
  using assms
proof (induction ops arbitrary: w)
  case Nil
  then show ?case by (simp add: run_Nil)
next
  case (Cons op ops)
  let ?w1 = "exec cd op w"
  have wf1: "wf ?w1" by (rule exec_wf[OF Cons.prems(1)])
  have p1: "p_stores ?w1 = p_stores w" by (rule exec_p_stores[OF Cons.prems(1)])
  then have da: "data_addrs ?w1 = data_addrs w" by (simp add: data_addrs_def)
  from Cons.prems(2) have nc: "\<not> is_commit op" and rest: "\<forall>op\<in>set ops. \<not> is_commit op" by simp_all
  from Cons.IH[OF wf1 rest] have
    "p_stores (run cd ops ?w1) = p_stores ?w1"
    "\<And>a. a \<in> set (data_addrs w) \<Longrightarrow> heap (run cd ops ?w1) ! a = heap ?w1 ! a"
    by (simp_all add: da)
  with p1 exec_committed[OF Cons.prems(1) nc] show ?case
    by (simp add: run_Cons)
qed

lemma committed_rows_eq:
  assumes "p_stores w' = p_stores w" and "\<forall>a\<in>set (data_addrs w). heap w' ! a = heap w ! a"
  shows "committed_rows w' name = committed_rows w name"
proof (cases "map_of (p_stores w) name")
  case None
  with assms(1) show ?thesis by (simp add: committed_rows_def)
next
  case (Some sd)
  with assms map_of_data_addr[OF Some] show ?thesis by (simp add: committed_rows_def)
qed

section \<open>Abort\<close>

lemma fold_rollback_nth:
  assumes "i < length (store_objs w)"
  shows "store_objs (fold internal_rollbackPendingData ss w) ! i =
     (if i \<in> set ss
      then (store_objs w ! i)\<lparr>pendingCommitDataChanges := None,
                              mergedData := committedStoreData (store_objs w ! i)\<rparr>
      else store_objs w ! i)"
  using assms
proof (induction ss arbitrary: w)
  case Nil
  then show ?case by simp
next
  case (Cons s ss)
  let ?w1 = "internal_rollbackPendingData s w"
  have i1: "i < length (store_objs ?w1)" using Cons.prems by simp
  show ?case
    using Cons.IH[OF i1] Cons.prems by (cases "i = s") simp_all
qed

lemma abort_rolls_back:
  assumes "wf w" and "t < length (transactions w)" and "e \<in> set (t_stores (transactions w ! t))"
  shows "pendingCommitDataChanges (store_objs (abort t w) ! snd e) = None \<and>
         mergedData (store_objs (abort t w) ! snd e) = committedStoreData (store_objs (abort t w) ! snd e) \<and>
         committedStoreData (store_objs (abort t w) ! snd e) = committedStoreData (store_objs w ! snd e)"
proof -
  from wf_handles_valid[OF assms(1,2)] assms(3) have "snd e < length (store_objs w)" by simp
  from fold_rollback_nth[OF this, of "map snd (t_stores (transactions w ! t))"] assms(3)
  show ?thesis by (simp add: abort_store_objs)
qed

lemma exec_transactions_length:
  assumes "wf w"
  shows "length (transactions w) \<le> length (transactions (exec cd op w))"
proof (cases op)
  case (OpenTransaction names writeNeeded)
  then show ?thesis by (simp add: openTransaction_def Let_def)
next
  case (GetStore t name)
  show ?thesis by (cases rule: getStore_cases[of name w t]) (simp_all add: GetStore)
next
  case (Abort t)
  then show ?thesis by (simp add: abort_transactions)
next
  case (Fire t)
  then show ?thesis by (simp add: fire_def Let_def commitTransaction_def split: option.splits)
next
  case (Put s v)
  with exec_store_step[OF assms, of s "Put s v" v] show ?thesis
    by (cases "s < length (store_objs w)") (simp_all add: store_step_def)
next
  case (Remove s v)
  with exec_store_step[OF assms, of s "Remove s v" v] show ?thesis
    by (cases "s < length (store_objs w)") (simp_all add: store_step_def)
next
  case (ClearAllData s)
  with exec_store_step[OF assms, of s "ClearAllData s"] show ?thesis
    by (cases "s < length (store_objs w)") (simp_all add: store_step_def)
next
  case (OpenPrimaryKey s)
  with exec_store_step[OF assms, of s "OpenPrimaryKey s"] show ?thesis
    by (cases "s < length (store_objs w)") (simp_all add: store_step_def)
next
  case (OpenIndex s indexName)
  with exec_store_step[OF assms, of s "OpenIndex s indexName" _ indexName] show ?thesis
    by (cases "s < length (store_objs w)") (simp_all add: store_step_def)
qed

lemma run_transactions_length:
  assumes "wf w"
  shows "length (transactions w) \<le> length (transactions (run cd ops w))"
  using assms
proof (induction ops arbitrary: w)
  case Nil
  then show ?case by (simp add: run_Nil)
next
  case (Cons op ops)
  from Cons.IH[OF exec_wf[OF Cons.prems], of cd op] exec_transactions_length[OF Cons.prems, of cd op]
  show ?case by (simp add: run_Cons)
qed

text \<open>
  Claim C2. From any state of the provider, let calls other than a commit be made (in
  particular any sequence of \<open>put\<close>, \<open>remove\<close> and \<open>clearAllData\<close>) and then \<open>abort()\<close> be
  called on a transaction. Then the committed row dictionary of every store is what it
  was at the start, and every store handle of the aborted transaction has no pending
  changes and reads the committed dictionary again.
\<close>

theorem abort_discards_pending_changes:
  assumes "wf w" and "t < length (transactions w)" and "\<forall>op\<in>set ops. \<not> is_commit op"
  shows "(\<forall>name. committed_rows (abort t (run cd ops w)) name = committed_rows w name) \<and>
         (\<forall>e\<in>set (t_stores (transactions (run cd ops w) ! t)).
            pendingCommitDataChanges (store_objs (abort t (run cd ops w)) ! snd e) = None \<and>
            mergedData (store_objs (abort t (run cd ops w)) ! snd e) =
              committedStoreData (store_objs (abort t (run cd ops w)) ! snd e) \<and>
            committedStoreData (store_objs (abort t (run cd ops w)) ! snd e) =
              committedStoreData (store_objs (run cd ops w) ! snd e))"
proof -
  let ?w1 = "run cd ops w"
  have wf1: "wf ?w1" by (rule run_wf[OF assms(1)])
  have t1: "t < length (transactions ?w1)"
    using run_transactions_length[OF assms(1), of cd ops] assms(2) by simp
  from run_committed[OF assms(1,3), of cd] have
    "p_stores (abort t ?w1) = p_stores w"
    "\<forall>a\<in>set (data_addrs w). heap (abort t ?w1) ! a = heap w ! a"
    by simp_all
  then have "committed_rows (abort t ?w1) name = committed_rows w name" for name
    by (rule committed_rows_eq)
  with abort_rolls_back[OF wf1 t1] show ?thesis by blast
qed

lemma wf_committed_world: "wf committed_world"
  unfolding committed_world_def demo_world_def by (intro run_wf wf_open_provider)

theorem abort_discards_pending_changes_witness:
  "committed_rows committed_world ''s'' =
     Some [(''Cb'', row ''b'' [JStr ''x'', JStr ''y'']), (''Ca'', row ''a'' []), (''Cc'', row ''c'' [JStr ''y''])] \<and>
   pendingCommitDataChanges (store_objs (run demo_codec writes committed_world) ! 2) =
     Some [(''Cz'', JUndefined), (''Ca'', JUndefined), (''Cb'', JUndefined), (''Cc'', JUndefined),
           (''Cy'', row ''y'' [])] \<and>
   committed_rows (abort 1 (run demo_codec writes committed_world)) ''s'' = committed_rows committed_world ''s'' \<and>
   pendingCommitDataChanges (store_objs (abort 1 (run demo_codec writes committed_world)) ! 2) = None \<and>
   mergedData (store_objs (abort 1 (run demo_codec writes committed_world)) ! 2) = 0"
proof -
  have 1: "1 < length (transactions committed_world)" by code_simp
  have 2: "\<forall>op\<in>set writes. \<not> is_commit op" by (simp add: writes_def)
  have 3: "(''s'', 2) \<in> set (t_stores (transactions (run demo_codec writes committed_world) ! 1))"
    by code_simp
  have 4: "committedStoreData (store_objs (run demo_codec writes committed_world) ! 2) = 0" by code_simp
  have 5: "committed_rows committed_world ''s'' =
     Some [(''Cb'', row ''b'' [JStr ''x'', JStr ''y'']), (''Ca'', row ''a'' []), (''Cc'', row ''c'' [JStr ''y''])]"
    by code_simp
  have 6: "pendingCommitDataChanges (store_objs (run demo_codec writes committed_world) ! 2) =
     Some [(''Cz'', JUndefined), (''Ca'', JUndefined), (''Cb'', JUndefined), (''Cc'', JUndefined),
           (''Cy'', row ''y'' [])]"
    by code_simp
  from abort_discards_pending_changes[OF wf_committed_world 1 2, of demo_codec] 3 4 5 6
  show ?thesis by fastforce
qed

section \<open>Isolation\<close>











section \<open>Store handles of a transaction\<close>

lemma cached_handle_has_store:
  assumes "wf w" and "t < length (transactions w)"
    and "map_of (t_stores (transactions w ! t)) name = Some s"
  shows "map_of (p_stores w) name \<noteq> None \<and> name \<notin> set object_prototype_names"
proof -
  from assms(3) have "(name, s) \<in> set (t_stores (transactions w ! t))" by (rule map_of_SomeD)
  with assms(1,2) have "wf_handle w t (name, s)" unfolding wf_iff by blast
  then show ?thesis by (auto simp: wf_handle_def split: option.splits)
qed

text \<open>
  With \<open>Object.prototype\<close> as the prototype of the provider's \<open>_stores\<close>, and for a name
  that \<open>Object.prototype\<close> has no member of, the provider finds what is declared.
\<close>

lemma internal_getStore_plain:
  assumes "p_proto w = None" and "name \<notin> set object_prototype_names"
  shows "internal_getStore w name = map_option StoreInfo (map_of (p_stores w) name)"
  using assms by (simp add: internal_getStore_def split: option.splits)

lemma plain_providerD:
  assumes "plain_provider w" and "t < length (transactions w)"
  shows "p_proto w = None" and "t_malformed (transactions w ! t) = []"
  using assms by (simp_all add: plain_provider_def)



text \<open>
  What \<open>getStore\<close> has returned is what \<open>this._stores[name]\<close> reads from then on, and what
  \<open>this._stores[name]\<close> reads is what \<open>getStore\<close> returns.
\<close>

lemma stores_lookup_fields [simp]:
  "stores_lookup (tr\<lparr>openTimer := x\<rparr>) = stores_lookup tr"
  "stores_lookup (tr\<lparr>t_outcome := y\<rparr>) = stores_lookup tr"
  by (simp_all add: stores_lookup_def fun_eq_iff cong: option.case_cong)


lemma getStore_records:
  assumes "t < length (transactions w)" and "fst (getStore t name w) = Inr r"
  shows "stores_lookup (transactions (snd (getStore t name w)) ! t) name = Some r \<and>
         name \<in> set (storeNames (transactions (snd (getStore t name w)) ! t)) \<and>
         t < length (transactions (snd (getStore t name w)))"
  using assms
proof (cases rule: getStore_cases[of name w t])
  case (created store)
  with assms show ?thesis
    by (simp add: stores_lookup_def dict_set_def update_conv')
next
  case (malformed m)
  from malformed(2) have "map_of (t_stores (transactions w ! t)) name = None"
    by (simp add: stores_lookup_None)
  with malformed assms show ?thesis
    by (simp add: stores_lookup_def dict_set_def update_conv')
qed (auto simp: stores_lookup_Handle)

lemma getStore_caches:
  assumes "t < length (transactions w)" and "fst (getStore t name w) = Inr (Handle s)"
  shows "map_of (t_stores (transactions (snd (getStore t name w)) ! t)) name = Some s \<and>
         name \<in> set (storeNames (transactions (snd (getStore t name w)) ! t)) \<and>
         t < length (transactions (snd (getStore t name w)))"
  using getStore_records[OF assms] by (simp add: stores_lookup_Handle)

lemma getStore_found:
  assumes "stores_lookup (transactions w ! t) name = Some r"
    and "name \<in> set (storeNames (transactions w ! t))"
  shows "getStore t name w = (Inr r, w)"
  using assms by (simp add: getStore_def Let_def)

lemma getStore_cached:
  assumes "map_of (t_stores (transactions w ! t)) name = Some s"
    and "name \<in> set (storeNames (transactions w ! t))"
  shows "getStore t name w = (Inr (Handle s), w)"
  using assms by (simp add: getStore_found stores_lookup_Handle)



subsection \<open>Providers whose schema declares no store named \<open>__proto__\<close>\<close>

lemma open_store_plain:
  assumes "st_name sch \<noteq> ''__proto__''" and "p_proto w = None"
  shows "p_proto (open_store sch w) = None"
  using assms by (simp add: open_store_def)

lemma open_provider_plain:
  assumes "''__proto__'' \<notin> set (map st_name schema)" and "p_proto w = None"
  shows "p_proto (open_provider schema w) = None"
  using assms unfolding open_provider_def
  by (induction schema arbitrary: w) (auto simp: open_store_plain)

lemma plain_open_provider:
  assumes "''__proto__'' \<notin> set (map st_name schema)"
  shows "plain_provider (open_provider schema new_provider)"
proof -
  have "p_proto new_provider = None" "store_objs new_provider = []" "transactions new_provider = []"
    "wf_provider new_provider"
    by (simp_all add: new_provider_def wf_provider_def data_addrs_def)
  with open_provider_plain[OF assms, of new_provider] open_provider_fresh[of new_provider schema]
  show ?thesis by (simp add: plain_provider_def)
qed

lemma plain_provider_iff:
  "plain_provider w \<longleftrightarrow>
     p_proto w = None \<and> (\<forall>t<length (transactions w). t_malformed (transactions w ! t) = [])"
  by (auto simp: plain_provider_def)

lemma exec_plain:
  assumes wf: "wf w" and pl: "plain_provider w"
  shows "plain_provider (exec cd op w)"
proof -
  from pl have p: "p_proto w = None"
    and m: "\<And>t. t < length (transactions w) \<Longrightarrow> t_malformed (transactions w ! t) = []"
    by (simp_all add: plain_provider_iff)
  have store_case: ?thesis
    if "op = Put s' v \<or> op = Remove s' v \<or> op = ClearAllData s' \<or> op = OpenPrimaryKey s' \<or>
         op = OpenIndex s' indexName" for s' v indexName
  proof (cases "s' < length (store_objs w)")
    case False
    with that pl show ?thesis by auto
  next
    case True
    from exec_store_step[OF wf True that, of cd]
    have "transactions (exec cd op w) = transactions w" "p_proto (exec cd op w) = p_proto w"
      by (simp_all add: store_step_def)
    with pl show ?thesis by (simp add: plain_provider_iff)
  qed
  show ?thesis
  proof (cases op)
    case (OpenTransaction names writeNeeded)
    with p m show ?thesis
      by (auto simp: plain_provider_iff openTransaction_def Let_def nth_append)
  next
    case (GetStore t' name')
    show ?thesis
    proof (cases "t' < length (transactions w)")
      case False
      with GetStore pl show ?thesis by simp
    next
      case True
      show ?thesis
      proof (cases rule: getStore_cases[of name' w t'])
        case (created store)
        have "t_malformed (((transactions w)[t' := (transactions w ! t')\<lparr>t_stores :=
                  dict_set name' (length (store_objs w)) (t_stores (transactions w ! t'))\<rparr>]) ! u) = []"
          if "u < length (transactions w)" for u
          using that m[of u] by (cases "u = t'") simp_all
        with p created(5) GetStore True show ?thesis by (simp add: plain_provider_iff)
      next
        case (malformed m')
        from malformed(2) have "name' \<notin> set object_prototype_names"
          by (simp add: stores_lookup_None)
        from internal_getStore_plain[OF p this] malformed(3,4) have False
          by (cases "map_of (p_stores w) name'") auto
        then show ?thesis ..
      qed (simp_all add: GetStore pl)
    qed
  next
    case (Abort t')
    show ?thesis
    proof (cases "t' < length (transactions w)")
      case False
      with Abort pl show ?thesis by simp
    next
      case True
      have "t_malformed (transactions (abort t' w) ! u) = []" if "u < length (transactions w)" for u
        using that m[of u] by (cases "u = t'") (simp_all add: abort_transactions)
      moreover have "p_proto (abort t' w) = None"
        using p by (simp add: abort_def Let_def)
      ultimately show ?thesis using Abort True by (simp add: plain_provider_iff abort_transactions)
    qed
  next
    case (Fire t')
    show ?thesis
    proof (cases "t' < length (transactions w) \<and>
        (\<exists>hd. openTimer (transactions w ! t') = Some hd \<and> hd \<in> set (timers w))")
      case True
      then obtain hd where f: "t' < length (transactions w)" "openTimer (transactions w ! t') = Some hd"
        "hd \<in> set (timers w)" by blast
      have "t_malformed (transactions (fire t' w) ! u) = []" if "u < length (transactions w)" for u
        using that m[of u] f(1) by (cases "u = t'") (simp_all add: fire_transactions[OF f])
      moreover have "p_proto (fire t' w) = None"
        using p f by (simp add: fire_def Let_def commitTransaction_def)
      ultimately show ?thesis using Fire f(1) by (simp add: plain_provider_iff fire_transactions[OF f])
    next
      case False
      then have "exec cd op w = w"
        by (auto simp: Fire fire_def split: option.splits)
      with pl show ?thesis by simp
    qed
  next
    case (Put s' v)
    then show ?thesis by (intro store_case[of s' v]) simp
  next
    case (Remove s' v)
    then show ?thesis by (intro store_case[of s' v]) simp
  next
    case (ClearAllData s')
    then show ?thesis by (intro store_case[of s']) simp
  next
    case (OpenPrimaryKey s')
    then show ?thesis by (intro store_case[of s']) simp
  next
    case (OpenIndex s' indexName)
    then show ?thesis by (intro store_case[of s' _ indexName]) simp
  qed
qed

lemma run_plain: "wf w \<Longrightarrow> plain_provider w \<Longrightarrow> plain_provider (run cd ops w)"
  unfolding run_def by (induction ops arbitrary: w) (simp_all add: exec_plain exec_wf)

lemma reachable_plain:
  assumes "''__proto__'' \<notin> set (map st_name schema)"
  shows "plain_provider (run cd ops (open_provider schema new_provider))"
  by (rule run_plain[OF wf_open_provider plain_open_provider[OF assms]])


text \<open>
  For a name of a member of \<open>Object.prototype\<close> that the token names, \<open>getStore\<close> returns
  that member, whether the provider has a store of that name or not.
\<close>

lemma getStore_inherited:
  assumes "wf w" and "plain_provider w" and "t < length (transactions w)"
    and "name \<in> set (storeNames (transactions w ! t))"
    and "name \<in> set object_prototype_names"
  shows "getStore t name w = (Inr (Inherited name), w)"
proof -
  have "map_of (t_stores (transactions w ! t)) name = None"
    using cached_handle_has_store[OF assms(1,3), of name] assms(5)
    by (cases "map_of (t_stores (transactions w ! t)) name") auto
  with plain_providerD(2)[OF assms(2,3)] assms(5)
  have "stores_lookup (transactions w ! t) name = Some (Inherited name)"
    by (simp add: stores_lookup_def)
  from getStore_found[OF this assms(4)] show ?thesis .
qed




section \<open>The effect of a commit\<close>

lemma replay_lookup:
  assumes "distinct (map fst p)"
  shows "map_of (fold replay p c) k =
     (case map_of p k of
        None \<Rightarrow> map_of c k
      | Some v \<Rightarrow> if v = JUndefined then None else Some v)"
  using assms
proof (induction p arbitrary: c)
  case Nil
  then show ?case by simp
next
  case (Cons e p)
  obtain k' v' where e: "e = (k', v')" by (cases e)
  from Cons.prems e have d: "distinct (map fst p)" and fresh: "k' \<notin> fst ` set p" by auto
  have r: "map_of (replay e c) j =
      (if j = k' then (if v' = JUndefined then None else Some v') else map_of c j)" for j
    by (simp add: e replay_def dict_delete_def dict_set_def delete_conv' update_conv')
  show ?case
  proof (cases "k = k'")
    case True
    with fresh have "map_of p k = None" by (simp add: map_of_eq_None_iff)
    with Cons.IH[OF d, of "replay e c"] r[of k] True e show ?thesis by simp
  next
    case False
    with Cons.IH[OF d, of "replay e c"] r[of k] e show ?thesis by (simp split: option.splits)
  qed
qed

lemma commit_heap:
  "heap (internal_commitPendingData s w) =
     (case pendingCommitDataChanges (store_objs w ! s) of
        None \<Rightarrow> heap w
      | Some p \<Rightarrow> (heap w)[committedStoreData (store_objs w ! s) :=
                     fold replay p (heap w ! committedStoreData (store_objs w ! s))])"
  by (simp add: internal_commitPendingData_def Let_def)

lemma committed_after_update [simp]:
  "committedStoreData ((store_objs w)[s := (store_objs w ! s)\<lparr>pendingCommitDataChanges := None,
       mergedData := committedStoreData (store_objs w ! s)\<rparr>] ! i) =
     committedStoreData (store_objs w ! i)"
proof (cases "i = s \<and> s < length (store_objs w)")
  case True
  then show ?thesis by simp
next
  case False
  then show ?thesis
    by (cases "s < length (store_objs w)") (auto simp: list_update_beyond)
qed

lemma fold_commit_committed [simp]:
  "committedStoreData (store_objs (fold internal_commitPendingData ss w) ! i) =
     committedStoreData (store_objs w ! i)"
  by (induction ss arbitrary: w) simp_all

lemma fold_commit_other_store:
  "i \<notin> set ss \<Longrightarrow> store_objs (fold internal_commitPendingData ss w) ! i = store_objs w ! i"
  by (induction ss arbitrary: w) simp_all

lemma commit_other_heap:
  "committedStoreData (store_objs w ! s) \<noteq> a \<Longrightarrow> heap (internal_commitPendingData s w) ! a = heap w ! a"
  by (simp add: commit_heap split: option.splits)

lemma fold_commit_other_heap:
  "\<forall>s\<in>set ss. committedStoreData (store_objs w ! s) \<noteq> a \<Longrightarrow>
   heap (fold internal_commitPendingData ss w) ! a = heap w ! a"
  by (induction ss arbitrary: w) (simp_all add: commit_other_heap)

lemma fold_commit_effect:
  assumes "distinct ss"
    and "\<forall>s\<in>set ss. s < length (store_objs w) \<and> committedStoreData (store_objs w ! s) < length (heap w)"
    and "inj_on (\<lambda>s. committedStoreData (store_objs w ! s)) (set ss)"
    and "s \<in> set ss"
  shows "store_objs (fold internal_commitPendingData ss w) ! s = committed_handle (store_objs w ! s) \<and>
         heap (fold internal_commitPendingData ss w) ! committedStoreData (store_objs w ! s) =
           replayed (store_objs w ! s) (heap w ! committedStoreData (store_objs w ! s))"
  using assms
proof (induction ss arbitrary: w)
  case Nil
  then show ?case by simp
next
  case (Cons s0 ss)
  let ?w1 = "internal_commitPendingData s0 w"
  let ?c = "\<lambda>i. committedStoreData (store_objs w ! i)"
  from Cons.prems(1) have d: "distinct ss" and fresh: "s0 \<notin> set ss" by simp_all
  from Cons.prems(2) have v0: "s0 < length (store_objs w)" "?c s0 < length (heap w)" by simp_all
  from Cons.prems(3) fresh have sep: "\<forall>i\<in>set ss. ?c i \<noteq> ?c s0"
    by (auto simp: inj_on_def)
  show ?case
  proof (cases "s = s0")
    case True
    have "store_objs (fold internal_commitPendingData ss ?w1) ! s0 = store_objs ?w1 ! s0"
      by (rule fold_commit_other_store[OF fresh])
    moreover have "heap (fold internal_commitPendingData ss ?w1) ! ?c s0 = heap ?w1 ! ?c s0"
      using sep by (intro fold_commit_other_heap) simp
    moreover have "store_objs ?w1 ! s0 = committed_handle (store_objs w ! s0)"
      using v0 by (simp add: committed_handle_def)
    moreover have "heap ?w1 ! ?c s0 = replayed (store_objs w ! s0) (heap w ! ?c s0)"
      using v0 by (simp add: commit_heap replayed_def split: option.splits)
    ultimately show ?thesis using True by simp
  next
    case False
    with Cons.prems(4) have s: "s \<in> set ss" by simp
    with fresh have ne: "s \<noteq> s0" by auto
    have 2: "\<forall>i\<in>set ss. i < length (store_objs ?w1) \<and>
               committedStoreData (store_objs ?w1 ! i) < length (heap ?w1)"
      using Cons.prems(2) by simp
    have 3: "inj_on (\<lambda>i. committedStoreData (store_objs ?w1 ! i)) (set ss)"
      using Cons.prems(3) by (simp add: inj_on_def)
    have same: "store_objs ?w1 ! s = store_objs w ! s" using ne by simp
    have hsame: "heap ?w1 ! ?c s = heap w ! ?c s"
      using sep s by (intro commit_other_heap) auto
    from Cons.IH[OF d 2 3 s] same hsame show ?thesis by simp
  qed
qed

lemma provider_addr_inj:
  assumes "wf w" and "map_of (p_stores w) n1 = Some sd1" and "map_of (p_stores w) n2 = Some sd2"
    and "sd_data sd1 = sd_data sd2"
  shows "n1 = n2"
proof -
  from assms(1) have "distinct (map (\<lambda>e. sd_data (snd e)) (p_stores w))"
    unfolding wf_iff wf_provider_def data_addrs_def by blast
  then have "inj_on (\<lambda>e. sd_data (snd e)) (set (p_stores w))" by (simp add: distinct_map)
  moreover have "(n1, sd1) \<in> set (p_stores w)" "(n2, sd2) \<in> set (p_stores w)"
    using assms(2,3) by (auto dest: map_of_SomeD)
  ultimately have "(n1, sd1) = (n2, sd2)" using assms(4) by (intro inj_onD[of "\<lambda>e. sd_data (snd e)"]) simp_all
  then show ?thesis by simp
qed

lemma handles_same_store:
  assumes "wf w" and "t < length (transactions w)"
    and "e1 \<in> set (t_stores (transactions w ! t))" and "e2 \<in> set (t_stores (transactions w ! t))"
    and "committedStoreData (store_objs w ! snd e1) = committedStoreData (store_objs w ! snd e2)"
  shows "e1 = e2"
proof -
  from assms(1,2) have d: "distinct (map fst (t_stores (transactions w ! t)))"
    and h: "\<And>e. e \<in> set (t_stores (transactions w ! t)) \<Longrightarrow> wf_handle w t e"
    unfolding wf_iff by blast+
  from h[OF assms(3)] obtain sd1 where 1: "map_of (p_stores w) (fst e1) = Some sd1"
    "committedStoreData (store_objs w ! snd e1) = sd_data sd1"
    by (auto simp: wf_handle_def split: option.splits)
  from h[OF assms(4)] obtain sd2 where 2: "map_of (p_stores w) (fst e2) = Some sd2"
    "committedStoreData (store_objs w ! snd e2) = sd_data sd2"
    by (auto simp: wf_handle_def split: option.splits)
  from provider_addr_inj[OF assms(1) 1(1) 2(1)] 1(2) 2(2) assms(5) have "fst e1 = fst e2" by simp
  moreover from d have "inj_on fst (set (t_stores (transactions w ! t)))" by (simp add: distinct_map)
  ultimately show ?thesis using assms(3,4) by (auto simp: inj_on_def)
qed

lemma handles_distinct:
  assumes "wf w" and "t < length (transactions w)"
  shows "distinct (map snd (t_stores (transactions w ! t)))"
    and "inj_on (\<lambda>s. committedStoreData (store_objs w ! s)) (set (map snd (t_stores (transactions w ! t))))"
    and "\<forall>s\<in>set (map snd (t_stores (transactions w ! t))).
           s < length (store_objs w) \<and> committedStoreData (store_objs w ! s) < length (heap w)"
proof -
  let ?ts = "t_stores (transactions w ! t)"
  from assms have d: "distinct (map fst ?ts)" unfolding wf_iff by blast
  then have dt: "distinct ?ts" by (simp add: distinct_map)
  have "inj_on snd (set ?ts)"
    using handles_same_store[OF assms] by (auto simp: inj_on_def)
  with dt show "distinct (map snd ?ts)" by (simp add: distinct_map)
  show "inj_on (\<lambda>s. committedStoreData (store_objs w ! s)) (set (map snd ?ts))"
    using handles_same_store[OF assms] by (auto simp: inj_on_def)
  show "\<forall>s\<in>set (map snd ?ts).
           s < length (store_objs w) \<and> committedStoreData (store_objs w ! s) < length (heap w)"
    using wf_handles_valid[OF assms] wf_committedD(2)[OF assms(1)] by auto
qed

lemma fire_effect:
  assumes "wf w" and "t < length (transactions w)"
    and "openTimer (transactions w ! t) = Some h" and "h \<in> set (timers w)"
    and "e \<in> set (t_stores (transactions w ! t))"
  shows "store_objs (fire t w) ! snd e = committed_handle (store_objs w ! snd e)"
    and "heap (fire t w) ! committedStoreData (store_objs w ! snd e) =
           replayed (store_objs w ! snd e) (heap w ! committedStoreData (store_objs w ! snd e))"
proof -
  let ?w1 = "w\<lparr>timers := removeAll h (timers w),
               transactions := (transactions w)[t := (transactions w ! t)\<lparr>openTimer := None\<rparr>]\<rparr>"
  let ?ss = "map snd (t_stores (transactions w ! t))"
  have ss: "map snd (t_stores (transactions ?w1 ! t)) = ?ss" using assms(2) by simp
  have so: "store_objs (fire t w) = store_objs (fold internal_commitPendingData ?ss ?w1)"
    and hp: "heap (fire t w) = heap (fold internal_commitPendingData ?ss ?w1)"
    using assms(2,3,4) by (simp_all add: fire_def Let_def commitTransaction_def)
  note hd = handles_distinct[OF assms(1,2)]
  have 2: "\<forall>s\<in>set ?ss. s < length (store_objs ?w1) \<and>
             committedStoreData (store_objs ?w1 ! s) < length (heap ?w1)"
    using hd(3) by simp
  have 3: "inj_on (\<lambda>s. committedStoreData (store_objs ?w1 ! s)) (set ?ss)"
    using hd(2) by simp
  have 4: "snd e \<in> set ?ss" using assms(5) by simp
  from fold_commit_effect[OF hd(1) 2 3 4]
  show "store_objs (fire t w) ! snd e = committed_handle (store_objs w ! snd e)"
    and "heap (fire t w) ! committedStoreData (store_objs w ! snd e) =
           replayed (store_objs w ! snd e) (heap w ! committedStoreData (store_objs w ! snd e))"
    by (simp_all add: so hp)
qed

section \<open>What a transaction opened next reads\<close>

lemma next_transaction_reads_committed:
  assumes "name \<in> set names" and "map_of (p_stores w) name = Some sd"
    and "name \<notin> set object_prototype_names"
  shows "next_transaction_rows names writeNeeded name w = Some (heap w ! sd_data sd)"
    and "next_transaction_get cd names writeNeeded name key w =
           (case serializeKeyToString cd key (st_primaryKeyPath (sd_schema sd)) of
              Inl err \<Rightarrow> Inl err
            | Inr k \<Rightarrow> Inr (dict_get (heap w ! sd_data sd) k))"
  using assms
  by (simp_all add: next_transaction_rows_def next_transaction_get_def openTransaction_def
        getStore_def stores_lookup_def internal_getStore_def get_def internal_isOpen_def
        Let_def nth_append
      split: sum.splits)

section \<open>What put and remove leave behind\<close>

lemma put_single:
  assumes "internal_isOpen w (s_trans (store_objs w ! s))"
    and "arrayify cd r = [r]"
    and "getSerializedKeyForKeypath cd r
           (st_primaryKeyPath (s_storeSchema (store_objs (checkDataClone s w) ! s))) = Inr k"
  shows "put cd s r w = (Inr (), put_key s k r (checkDataClone s w))"
  using assms by (simp add: put_def)

lemma checkDataClone_static:
  assumes "s < length (store_objs w)"
  shows "s_storeSchema (store_objs (checkDataClone s w) ! s) = s_storeSchema (store_objs w ! s)"
    and "s_trans (store_objs (checkDataClone s w) ! s) = s_trans (store_objs w ! s)"
    and "committedStoreData (store_objs (checkDataClone s w) ! s) = committedStoreData (store_objs w ! s)"
    and "transactions (checkDataClone s w) = transactions w"
    and "timers (checkDataClone s w) = timers w"
    and "p_stores (checkDataClone s w) = p_stores w"
  using assms
  by (cases "pendingCommitDataChanges (store_objs w ! s)";
      simp add: checkDataClone_forked checkDataClone_unforked)+

lemma put_key_result:
  assumes "wf w" and "s < length (store_objs w)"
    and "pendingCommitDataChanges (store_objs w ! s) = Some p"
  shows "store_objs (put_key s k r w) ! s =
           (store_objs w ! s)\<lparr>pendingCommitDataChanges := Some (dict_set k r p)\<rparr>"
    and "heap (put_key s k r w) ! mergedData (store_objs w ! s) =
           dict_set k r (heap w ! mergedData (store_objs w ! s))"
    and "transactions (put_key s k r w) = transactions w"
    and "timers (put_key s k r w) = timers w"
  using assms wf_forkedD(2)[OF assms]
  by (simp_all add: put_key_def Let_def)

lemma remove_key_result:
  assumes "s < length (store_objs w)"
    and "pendingCommitDataChanges (store_objs w ! s) = Some p"
  shows "store_objs (remove_key s k w) ! s =
           (store_objs w ! s)\<lparr>pendingCommitDataChanges := Some (dict_set k JUndefined p)\<rparr>"
    and "transactions (remove_key s k w) = transactions w"
    and "timers (remove_key s k w) = timers w"
    and "length (store_objs (remove_key s k w)) = length (store_objs w)"
  using assms by (simp_all add: remove_key_def Let_def)

lemma fold_remove_key_result:
  assumes "s < length (store_objs w)"
    and "pendingCommitDataChanges (store_objs w ! s) = Some p"
  shows "pendingCommitDataChanges (store_objs (fold (remove_key s) ks w) ! s) =
           Some (fold (\<lambda>k. dict_set k JUndefined) ks p) \<and>
         committedStoreData (store_objs (fold (remove_key s) ks w) ! s) = committedStoreData (store_objs w ! s) \<and>
         transactions (fold (remove_key s) ks w) = transactions w \<and>
         timers (fold (remove_key s) ks w) = timers w"
  using assms
proof (induction ks arbitrary: w p)
  case Nil
  then show ?case by simp
next
  case (Cons k ks)
  let ?w1 = "remove_key s k w"
  note r = remove_key_result[OF Cons.prems, of k]
  have 1: "s < length (store_objs ?w1)" using r(4) Cons.prems(1) by simp
  have 2: "pendingCommitDataChanges (store_objs ?w1 ! s) = Some (dict_set k JUndefined p)"
    by (simp add: r(1))
  from Cons.IH[OF 1 2] r show ?case by simp
qed

lemma tombstones_lookup:
  "k \<in> set ks \<Longrightarrow> map_of (fold (\<lambda>k. dict_set k JUndefined) ks p) k = Some JUndefined"
proof (induction ks arbitrary: p)
  case Nil
  then show ?case by simp
next
  case (Cons j ks)
  have keep: "map_of (fold (\<lambda>k. dict_set k JUndefined) ks q) k = Some JUndefined"
    if "map_of q k = Some JUndefined" for q
    using that by (induction ks arbitrary: q) (simp_all add: dict_set_def update_conv')
  show ?case
  proof (cases "k \<in> set ks")
    case True
    with Cons.IH show ?thesis by simp
  next
    case False
    with Cons.prems have kj: "k = j" by simp
    have "map_of (dict_set j JUndefined p) k = Some JUndefined"
      by (simp add: kj dict_set_def update_conv')
    from keep[OF this] show ?thesis by simp
  qed
qed

lemma getStore_handle_facts:
  assumes "wf w" and "t < length (transactions w)" and "fst (getStore t name w) = Inr (Handle s)"
  obtains sd where
    "wf (snd (getStore t name w))"
    "t < length (transactions (snd (getStore t name w)))"
    "openTimer (transactions (snd (getStore t name w)) ! t) = openTimer (transactions w ! t)"
    "timers (snd (getStore t name w)) = timers w"
    "(name, s) \<in> set (t_stores (transactions (snd (getStore t name w)) ! t))"
    "s < length (store_objs (snd (getStore t name w)))"
    "s_trans (store_objs (snd (getStore t name w)) ! s) = t"
    "internal_getStore w name = Some (StoreInfo sd)"
    "committedStoreData (store_objs (snd (getStore t name w)) ! s) = sd_data sd"
    "s_storeSchema (store_objs (snd (getStore t name w)) ! s) = sd_schema sd"
    "name \<notin> set object_prototype_names"
    "map_of (p_stores w) name = Some sd"
proof -
  let ?w1 = "snd (getStore t name w)"
  have wf1: "wf ?w1" by (rule getStore_wf[OF assms(1,2)])
  from getStore_caches[OF assms(2,3)] have
    c: "map_of (t_stores (transactions ?w1 ! t)) name = Some s" and t1: "t < length (transactions ?w1)"
    by simp_all
  from c have e: "(name, s) \<in> set (t_stores (transactions ?w1 ! t))" by (rule map_of_SomeD)
  with wf1 t1 have h: "wf_handle ?w1 t (name, s)" unfolding wf_iff by blast
  then obtain sd where sd: "map_of (p_stores ?w1) name = Some sd"
    "committedStoreData (store_objs ?w1 ! s) = sd_data sd"
    "s_storeSchema (store_objs ?w1 ! s) = sd_schema sd"
    and plain: "name \<notin> set object_prototype_names"
    by (auto simp: wf_handle_def split: option.splits)
  have ot: "openTimer (transactions ?w1 ! t) = openTimer (transactions w ! t)"
    and tm: "timers ?w1 = timers w"
    using assms(2) by (cases rule: getStore_cases[of name w t]; simp; (cases "t = t"; simp)?)+
  from sd(1) have own: "map_of (p_stores w) name = Some sd" by simp
  with plain have "internal_getStore w name = Some (StoreInfo sd)"
    by (simp add: internal_getStore_StoreInfo)
  with wf1 t1 ot tm e h sd plain own show thesis
    by (intro that[of sd]) (simp_all add: wf_handle_def)
qed

lemma isOpen_transactions:
  "transactions w' ! t = transactions w ! t \<Longrightarrow> internal_isOpen w' t = internal_isOpen w t"
  by (simp add: internal_isOpen_def)

lemma isOpen_timer:
  "openTimer (transactions w' ! t) = openTimer (transactions w ! t) \<Longrightarrow>
   internal_isOpen w' t = internal_isOpen w t"
  by (simp add: internal_isOpen_def)

text \<open>
  Claim C3. Let \<open>s\<close> be the handle of an open transaction for a store, and \<open>r\<close> a row (a
  single item) whose primary key serializes to the string that the key \<open>key\<close> serializes to.
  Then \<open>put(r)\<close> resolves and \<open>get(key)\<close> in the same transaction returns \<open>r\<close>; and once the
  transaction has committed, \<open>get(key)\<close> in a transaction opened next on that store returns
  \<open>r\<close> as well.
\<close>

theorem put_then_get_round_trip:
  assumes "wf w" and "t < length (transactions w)"
    and "internal_isOpen w t" and "openTimer (transactions w ! t) = Some h" and "h \<in> set (timers w)"
    and "fst (getStore t name w) = Inr (Handle s)" and "internal_getStore w name = Some (StoreInfo sd)"
    and "arrayify cd r = [r]"
    and "getSerializedKeyForKeypath cd r (st_primaryKeyPath (sd_schema sd)) = Inr k"
    and "serializeKeyToString cd key (st_primaryKeyPath (sd_schema sd)) = Inr k"
    and "name \<in> set names"
  shows "fst (put cd s r (snd (getStore t name w))) = Inr () \<and>
         get cd (snd (put cd s r (snd (getStore t name w)))) s key = Inr r \<and>
         next_transaction_get cd names writeNeeded name key
           (fire t (snd (put cd s r (snd (getStore t name w))))) = Inr r"
proof -
  let ?w1 = "snd (getStore t name w)"
  let ?wc = "checkDataClone s ?w1"
  let ?w2 = "put_key s k r ?wc"
  from getStore_handle_facts[OF assms(1,2,6)] assms(7) have
    wf1: "wf ?w1" and t1: "t < length (transactions ?w1)"
    and ot1: "openTimer (transactions ?w1 ! t) = openTimer (transactions w ! t)"
    and tm1: "timers ?w1 = timers w"
    and e1: "(name, s) \<in> set (t_stores (transactions ?w1 ! t))"
    and s1: "s < length (store_objs ?w1)"
    and tr1: "s_trans (store_objs ?w1 ! s) = t"
    and c1: "committedStoreData (store_objs ?w1 ! s) = sd_data sd"
    and sc1: "s_storeSchema (store_objs ?w1 ! s) = sd_schema sd"
    and plain: "name \<notin> set object_prototype_names"
    and own: "map_of (p_stores w) name = Some sd"
    by (metis option.inject member.inject(1))+
  have p1: "p_stores ?w1 = p_stores w" by simp
  have open1: "internal_isOpen ?w1 (s_trans (store_objs ?w1 ! s))"
    using assms(3) isOpen_timer[OF ot1] by (simp add: tr1)
  note cs = checkDataClone_static[OF s1]
  have key_c: "getSerializedKeyForKeypath cd r
           (st_primaryKeyPath (s_storeSchema (store_objs ?wc ! s))) = Inr k"
    using assms(9) by (simp add: cs(1) sc1)
  have put: "put cd s r ?w1 = (Inr (), ?w2)"
    by (rule put_single[OF open1 assms(8) key_c])
  have stepc: "store_step s ?w1 ?wc" by (rule checkDataClone_step[OF wf1 s1])
  have wfc: "wf ?wc" by (rule store_step_wf[OF wf1 s1 stepc])
  have sc: "s < length (store_objs ?wc)" using store_step_length[OF stepc] s1 by simp
  from checkDataClone_forks[OF s1] obtain p0 where
    p0: "pendingCommitDataChanges (store_objs ?wc ! s) = Some p0"
    by (auto simp: forked_def)
  note pk = put_key_result[OF wfc sc p0, of k r]
  have st2: "store_objs ?w2 ! s = (store_objs ?wc ! s)\<lparr>pendingCommitDataChanges := Some (dict_set k r p0)\<rparr>"
    by (rule pk(1))
  have tr2: "transactions ?w2 = transactions ?w1" by (simp add: pk(3) cs(4))
  have tm2: "timers ?w2 = timers ?w1" by (simp add: pk(4) cs(5))
  have wf2: "wf ?w2"
    using store_step_wf[OF wf1 s1 put_step[OF wf1 s1, of cd r]] by (simp add: put)
  have len2: "s < length (store_objs ?w2)"
    using store_step_length[OF put_step[OF wf1 s1, of cd r]] s1 by (simp add: put)
  \<comment> \<open>the read in the same transaction\<close>
  have open2: "internal_isOpen ?w2 (s_trans (store_objs ?w2 ! s))"
    using open1 by (simp add: st2 cs(2) internal_isOpen_def tr2)
  have key2: "serializeKeyToString cd key (st_primaryKeyPath (s_storeSchema (store_objs ?w2 ! s))) = Inr k"
    using assms(10) by (simp add: st2 cs(1) sc1)
  have "dict_get (heap ?w2 ! mergedData (store_objs ?w2 ! s)) k = r"
    by (simp add: st2 pk(2) dict_get_def dict_set_def update_conv')
  with get_resolved[OF open2 key2] have g: "get cd ?w2 s key = Inr r" by simp
  \<comment> \<open>the commit\<close>
  have t2: "t < length (transactions ?w2)" using t1 by (simp add: tr2)
  have ot2: "openTimer (transactions ?w2 ! t) = Some h" using assms(4) by (simp add: tr2 ot1)
  have h2: "h \<in> set (timers ?w2)" using assms(5) by (simp add: tm2 tm1)
  have e2: "(name, s) \<in> set (t_stores (transactions ?w2 ! t))" using e1 by (simp add: tr2)
  have c2: "committedStoreData (store_objs ?w2 ! s) = sd_data sd" by (simp add: st2 cs(3) c1)
  have pend2: "pendingCommitDataChanges (store_objs ?w2 ! s) = Some (dict_set k r p0)" by (simp add: st2)
  from fire_effect(2)[OF wf2 t2 ot2 h2 e2]
  have heap3: "heap (fire t ?w2) ! sd_data sd = fold replay (dict_set k r p0) (heap ?w2 ! sd_data sd)"
    by (simp add: c2 replayed_def pend2)
  have "map_of (heap (fire t ?w2) ! sd_data sd) k = (if r = JUndefined then None else Some r)"
    unfolding heap3
    using replay_lookup[OF wf_forkedD(1)[OF wf2 len2 pend2], of _ k]
    by (simp add: dict_set_def update_conv')
  then have read3: "dict_get (heap (fire t ?w2) ! sd_data sd) k = r"
    by (simp add: dict_get_def)
  have "map_of (p_stores (fire t ?w2)) name = Some sd"
    using own by (simp add: put_key_def Let_def cs(6))
  from next_transaction_reads_committed(2)[OF assms(11) this plain, of cd writeNeeded key] assms(10) read3
  have n: "next_transaction_get cd names writeNeeded name key (fire t ?w2) = Inr r" by simp
  from g n show ?thesis by (simp add: put)
qed

theorem put_then_get_round_trip_witness:
  "fst (put demo_codec 0 (row ''a'' []) (snd (getStore 0 ''s'' opened_world))) = Inr () \<and>
   get demo_codec (snd (put demo_codec 0 (row ''a'' []) (snd (getStore 0 ''s'' opened_world)))) 0 (JStr ''a'') =
     Inr (row ''a'' []) \<and>
   next_transaction_get demo_codec [''s''] False ''s'' (JStr ''a'')
     (fire 0 (snd (put demo_codec 0 (row ''a'' []) (snd (getStore 0 ''s'' opened_world))))) =
     Inr (row ''a'' []) \<and>
   next_transaction_get demo_codec [''s''] False ''s'' (JStr ''a'') opened_world = Inr JUndefined"
proof -
  have 1: "wf opened_world"
    unfolding opened_world_def by (intro openTransaction_wf wf_open_provider)
  have 2: "0 < length (transactions opened_world)" by code_simp
  have 3: "internal_isOpen opened_world 0" by code_simp
  have 4: "openTimer (transactions opened_world ! 0) = Some 1" by code_simp
  have 5: "1 \<in> set (timers opened_world)" by code_simp
  have 6: "fst (getStore 0 ''s'' opened_world) = Inr (Handle 0)" by code_simp
  have 7: "internal_getStore opened_world ''s'' =
             Some (StoreInfo \<lparr>sd_schema = demo_schema ! 0, sd_data = 0\<rparr>)"
    by code_simp
  have 8: "arrayify demo_codec (row ''a'' []) = [row ''a'' []]" by code_simp
  have 9: "getSerializedKeyForKeypath demo_codec (row ''a'' [])
             (st_primaryKeyPath (sd_schema \<lparr>sd_schema = demo_schema ! 0, sd_data = 0\<rparr>)) = Inr ''Ca''"
    by code_simp
  have 10: "serializeKeyToString demo_codec (JStr ''a'')
             (st_primaryKeyPath (sd_schema \<lparr>sd_schema = demo_schema ! 0, sd_data = 0\<rparr>)) = Inr ''Ca''"
    by code_simp
  have 11: "''s'' \<in> set [''s'']" by simp
  have 12: "next_transaction_get demo_codec [''s''] False ''s'' (JStr ''a'') opened_world = Inr JUndefined"
    by code_simp
  from put_then_get_round_trip[OF 1 2 3 4 5 6 7 8 9 10 11, of False] 12
  show ?thesis by simp
qed

section \<open>Commit\<close>

lemma remove_resolved:
  assumes "internal_isOpen w (s_trans (store_objs w ! s))"
    and "formListOfSerializedKeys cd keyOrKeys
           (st_primaryKeyPath (s_storeSchema (store_objs (checkDataClone s w) ! s))) = Inr ks"
  shows "remove cd s keyOrKeys w = (Inr (), fold (remove_key s) ks (checkDataClone s w))"
  using assms by (simp add: remove_def Let_def)

lemma fire_commits_handle:
  assumes "wf w" and "t < length (transactions w)"
    and "openTimer (transactions w ! t) = Some h" and "h \<in> set (timers w)"
    and "e \<in> set (t_stores (transactions w ! t))"
  shows "pendingCommitDataChanges (store_objs (fire t w) ! snd e) = None \<and>
         mergedData (store_objs (fire t w) ! snd e) = committedStoreData (store_objs w ! snd e) \<and>
         committedStoreData (store_objs (fire t w) ! snd e) = committedStoreData (store_objs w ! snd e) \<and>
         (\<forall>k. map_of (heap (fire t w) ! committedStoreData (store_objs w ! snd e)) k =
            (case pendingCommitDataChanges (store_objs w ! snd e) of
               None \<Rightarrow> map_of (heap w ! committedStoreData (store_objs w ! snd e)) k
             | Some p \<Rightarrow>
                 (case map_of p k of
                    None \<Rightarrow> map_of (heap w ! committedStoreData (store_objs w ! snd e)) k
                  | Some v \<Rightarrow> if v = JUndefined then None else Some v)))"
proof -
  note f = fire_effect[OF assms]
  from wf_handles_valid[OF assms(1,2)] assms(5) have v: "snd e < length (store_objs w)" by simp
  have "map_of (heap (fire t w) ! committedStoreData (store_objs w ! snd e)) k =
            (case pendingCommitDataChanges (store_objs w ! snd e) of
               None \<Rightarrow> map_of (heap w ! committedStoreData (store_objs w ! snd e)) k
             | Some p \<Rightarrow>
                 (case map_of p k of
                    None \<Rightarrow> map_of (heap w ! committedStoreData (store_objs w ! snd e)) k
                  | Some v \<Rightarrow> if v = JUndefined then None else Some v))" for k
  proof (cases "pendingCommitDataChanges (store_objs w ! snd e)")
    case None
    then show ?thesis by (simp add: f(2) replayed_def)
  next
    case (Some p)
    from replay_lookup[OF wf_forkedD(1)[OF assms(1) v Some]] Some show ?thesis
      by (simp add: f(2) replayed_def)
  qed
  then show ?thesis by (simp add: f(1) committed_handle_def)
qed

text \<open>
  Claim C4. When the scheduled commit of a transaction fires, then for every store
  handle in its \<open>_stores\<close> the pending entries are replayed into the committed dictionary
  (afterwards a key with a pending value has that value, a key with a pending tombstone
  is absent, every other key is as before), the pending changes are cleared and the
  handle reads the committed dictionary again. In particular, after \<open>remove\<close> of keys in
  an open transaction and its commit, a removed key is absent from the dictionary a
  transaction opened next reads, and \<open>get\<close> of it returns \<open>undefined\<close>.
\<close>

theorem commit_replays_pending_changes:
  assumes "wf w" and "t < length (transactions w)"
    and "openTimer (transactions w ! t) = Some h" and "h \<in> set (timers w)"
  shows "(\<forall>e\<in>set (t_stores (transactions w ! t)).
            pendingCommitDataChanges (store_objs (fire t w) ! snd e) = None \<and>
            mergedData (store_objs (fire t w) ! snd e) = committedStoreData (store_objs w ! snd e) \<and>
            committedStoreData (store_objs (fire t w) ! snd e) = committedStoreData (store_objs w ! snd e) \<and>
            (\<forall>k. map_of (heap (fire t w) ! committedStoreData (store_objs w ! snd e)) k =
               (case pendingCommitDataChanges (store_objs w ! snd e) of
                  None \<Rightarrow> map_of (heap w ! committedStoreData (store_objs w ! snd e)) k
                | Some p \<Rightarrow>
                    (case map_of p k of
                       None \<Rightarrow> map_of (heap w ! committedStoreData (store_objs w ! snd e)) k
                     | Some v \<Rightarrow> if v = JUndefined then None else Some v)))) \<and>
         (internal_isOpen w t \<and> fst (getStore t name w) = Inr (Handle s) \<and>
          internal_getStore w name = Some (StoreInfo sd) \<and>
          formListOfSerializedKeys cd keyOrKeys (st_primaryKeyPath (sd_schema sd)) = Inr ks \<and> k \<in> set ks \<and>
          serializeKeyToString cd key (st_primaryKeyPath (sd_schema sd)) = Inr k \<and> name \<in> set names \<longrightarrow>
            fst (remove cd s keyOrKeys (snd (getStore t name w))) = Inr () \<and>
            (\<exists>d. next_transaction_rows names writeNeeded name
                   (fire t (snd (remove cd s keyOrKeys (snd (getStore t name w))))) = Some d \<and>
                 k \<notin> set (dict_keys d)) \<and>
            next_transaction_get cd names writeNeeded name key
              (fire t (snd (remove cd s keyOrKeys (snd (getStore t name w))))) = Inr JUndefined)"
proof (rule conjI)
  show "\<forall>e\<in>set (t_stores (transactions w ! t)).
            pendingCommitDataChanges (store_objs (fire t w) ! snd e) = None \<and>
            mergedData (store_objs (fire t w) ! snd e) = committedStoreData (store_objs w ! snd e) \<and>
            committedStoreData (store_objs (fire t w) ! snd e) = committedStoreData (store_objs w ! snd e) \<and>
            (\<forall>k. map_of (heap (fire t w) ! committedStoreData (store_objs w ! snd e)) k =
               (case pendingCommitDataChanges (store_objs w ! snd e) of
                  None \<Rightarrow> map_of (heap w ! committedStoreData (store_objs w ! snd e)) k
                | Some p \<Rightarrow>
                    (case map_of p k of
                       None \<Rightarrow> map_of (heap w ! committedStoreData (store_objs w ! snd e)) k
                     | Some v \<Rightarrow> if v = JUndefined then None else Some v)))"
    using fire_commits_handle[OF assms] by blast
next
  have "fst (remove cd s keyOrKeys (snd (getStore t name w))) = Inr () \<and>
            (\<exists>d. next_transaction_rows names writeNeeded name
                   (fire t (snd (remove cd s keyOrKeys (snd (getStore t name w))))) = Some d \<and>
                 k \<notin> set (dict_keys d)) \<and>
            next_transaction_get cd names writeNeeded name key
              (fire t (snd (remove cd s keyOrKeys (snd (getStore t name w))))) = Inr JUndefined"
    if a: "internal_isOpen w t \<and> fst (getStore t name w) = Inr (Handle s) \<and>
          internal_getStore w name = Some (StoreInfo sd) \<and>
          formListOfSerializedKeys cd keyOrKeys (st_primaryKeyPath (sd_schema sd)) = Inr ks \<and> k \<in> set ks \<and>
          serializeKeyToString cd key (st_primaryKeyPath (sd_schema sd)) = Inr k \<and> name \<in> set names"
  proof -
  from a have isopen: "internal_isOpen w t" and gs: "fst (getStore t name w) = Inr (Handle s)"
    and sd: "internal_getStore w name = Some (StoreInfo sd)"
    and fl: "formListOfSerializedKeys cd keyOrKeys (st_primaryKeyPath (sd_schema sd)) = Inr ks"
    and kin: "k \<in> set ks"
    and ser: "serializeKeyToString cd key (st_primaryKeyPath (sd_schema sd)) = Inr k"
    and nm: "name \<in> set names"
    by simp_all
  let ?w1 = "snd (getStore t name w)"
  let ?wc = "checkDataClone s ?w1"
  let ?w2 = "fold (remove_key s) ks ?wc"
  from getStore_handle_facts[OF assms(1,2) gs] sd have
    wf1: "wf ?w1" and t1: "t < length (transactions ?w1)"
    and ot1: "openTimer (transactions ?w1 ! t) = openTimer (transactions w ! t)"
    and tm1: "timers ?w1 = timers w"
    and e1: "(name, s) \<in> set (t_stores (transactions ?w1 ! t))"
    and s1: "s < length (store_objs ?w1)"
    and tr1: "s_trans (store_objs ?w1 ! s) = t"
    and c1: "committedStoreData (store_objs ?w1 ! s) = sd_data sd"
    and sc1: "s_storeSchema (store_objs ?w1 ! s) = sd_schema sd"
    and plain: "name \<notin> set object_prototype_names"
    and own: "map_of (p_stores w) name = Some sd"
    by (metis option.inject member.inject(1))+
  have open1: "internal_isOpen ?w1 (s_trans (store_objs ?w1 ! s))"
    using isopen isOpen_timer[OF ot1] by (simp add: tr1)
  note cs = checkDataClone_static[OF s1]
  have fl_c: "formListOfSerializedKeys cd keyOrKeys
           (st_primaryKeyPath (s_storeSchema (store_objs ?wc ! s))) = Inr ks"
    using fl by (simp add: cs(1) sc1)
  have rm: "remove cd s keyOrKeys ?w1 = (Inr (), ?w2)"
    by (rule remove_resolved[OF open1 fl_c])
  have stepc: "store_step s ?w1 ?wc" by (rule checkDataClone_step[OF wf1 s1])
  have sc: "s < length (store_objs ?wc)" using store_step_length[OF stepc] s1 by simp
  from checkDataClone_forks[OF s1] obtain p0 where
    p0: "pendingCommitDataChanges (store_objs ?wc ! s) = Some p0"
    by (auto simp: forked_def)
  from fold_remove_key_result[OF sc p0, of ks] have
    pend2: "pendingCommitDataChanges (store_objs ?w2 ! s) = Some (fold (\<lambda>k. dict_set k JUndefined) ks p0)"
    and c2: "committedStoreData (store_objs ?w2 ! s) = sd_data sd"
    and tr2: "transactions ?w2 = transactions ?w1"
    and tm2: "timers ?w2 = timers ?w1"
    by (simp_all add: cs c1)
  have wf2: "wf ?w2"
    using store_step_wf[OF wf1 s1 remove_step[OF wf1 s1, of cd keyOrKeys]] by (simp add: rm)
  have len2: "s < length (store_objs ?w2)"
    using store_step_length[OF remove_step[OF wf1 s1, of cd keyOrKeys]] s1 by (simp add: rm)
  have p2: "p_stores ?w2 = p_stores w"
    using remove_step[OF wf1 s1, of cd keyOrKeys] by (simp add: rm store_step_def)
  have t2: "t < length (transactions ?w2)" using t1 by (simp add: tr2)
  have ot2: "openTimer (transactions ?w2 ! t) = Some h" using assms(3) by (simp add: tr2 ot1)
  have h2: "h \<in> set (timers ?w2)" using assms(4) by (simp add: tm2 tm1)
  have e2: "(name, s) \<in> set (t_stores (transactions ?w2 ! t))" using e1 by (simp add: tr2)
  from fire_commits_handle[OF wf2 t2 ot2 h2 e2] tombstones_lookup[OF kin, of p0]
  have gone: "map_of (heap (fire t ?w2) ! sd_data sd) k = None"
    by (simp add: c2 pend2)
  have ps: "map_of (p_stores (fire t ?w2)) name = Some sd"
    using own by (simp add: p2)
  note nx = next_transaction_reads_committed[OF nm ps plain, where writeNeeded = writeNeeded]
  from gone have absent: "k \<notin> set (dict_keys (heap (fire t ?w2) ! sd_data sd))"
    by (simp add: dict_keys_def map_of_eq_None_iff)
  from gone have "dict_get (heap (fire t ?w2) ! sd_data sd) k = JUndefined"
    by (simp add: dict_get_def)
  with nx(2)[where cd = cd and key = key] ser have g: "next_transaction_get cd names writeNeeded name key (fire t ?w2) = Inr JUndefined"
    by simp
  have r1: "fst (remove cd s keyOrKeys ?w1) = Inr ()" by (simp add: rm)
  have r2: "\<exists>d. next_transaction_rows names writeNeeded name
                   (fire t (snd (remove cd s keyOrKeys ?w1))) = Some d \<and>
                 k \<notin> set (dict_keys d)"
    using nx(1) absent by (simp add: rm)
  have r3: "next_transaction_get cd names writeNeeded name key
              (fire t (snd (remove cd s keyOrKeys ?w1))) = Inr JUndefined"
    using g by (simp add: rm)
  from r1 r2 r3 show ?thesis by blast
  qed
  then show "internal_isOpen w t \<and> fst (getStore t name w) = Inr (Handle s) \<and>
          internal_getStore w name = Some (StoreInfo sd) \<and>
          formListOfSerializedKeys cd keyOrKeys (st_primaryKeyPath (sd_schema sd)) = Inr ks \<and> k \<in> set ks \<and>
          serializeKeyToString cd key (st_primaryKeyPath (sd_schema sd)) = Inr k \<and> name \<in> set names \<longrightarrow>
            fst (remove cd s keyOrKeys (snd (getStore t name w))) = Inr () \<and>
            (\<exists>d. next_transaction_rows names writeNeeded name
                   (fire t (snd (remove cd s keyOrKeys (snd (getStore t name w))))) = Some d \<and>
                 k \<notin> set (dict_keys d)) \<and>
            next_transaction_get cd names writeNeeded name key
              (fire t (snd (remove cd s keyOrKeys (snd (getStore t name w))))) = Inr JUndefined"
    by blast
qed

theorem commit_replays_pending_changes_witness:
  "pendingCommitDataChanges (store_objs pending_world ! 2) = Some [(''Cz'', row ''z'' []), (''Ca'', JUndefined)] \<and>
   pendingCommitDataChanges (store_objs (fire 1 pending_world) ! 2) = None \<and>
   mergedData (store_objs (fire 1 pending_world) ! 2) = 0 \<and>
   map_of (heap (fire 1 pending_world) ! 0) ''Cz'' = Some (row ''z'' []) \<and>
   map_of (heap (fire 1 pending_world) ! 0) ''Ca'' = None \<and>
   map_of (heap (fire 1 pending_world) ! 0) ''Cb'' = Some (row ''b'' [JStr ''x'', JStr ''y'']) \<and>
   fst (remove demo_codec 2 (JStr ''c'') (snd (getStore 1 ''s'' pending_world))) = Inr () \<and>
   next_transaction_get demo_codec [''s''] False ''s'' (JStr ''c'')
     (fire 1 (snd (remove demo_codec 2 (JStr ''c'') (snd (getStore 1 ''s'' pending_world))))) = Inr JUndefined \<and>
   next_transaction_get demo_codec [''s''] False ''s'' (JStr ''c'') pending_world = Inr (row ''c'' [JStr ''y''])"
proof -
  have 1: "wf pending_world"
    unfolding pending_world_def by (intro run_wf wf_committed_world)
  have 2: "1 < length (transactions pending_world)" by code_simp
  have 3: "openTimer (transactions pending_world ! 1) = Some 2" by code_simp
  have 4: "2 \<in> set (timers pending_world)" by code_simp
  have 5: "(''s'', 2) \<in> set (t_stores (transactions pending_world ! 1))" by code_simp
  have 6: "pendingCommitDataChanges (store_objs pending_world ! 2) =
             Some [(''Cz'', row ''z'' []), (''Ca'', JUndefined)]"
    "committedStoreData (store_objs pending_world ! 2) = 0"
    "map_of (heap pending_world ! 0) ''Cb'' = Some (row ''b'' [JStr ''x'', JStr ''y''])"
    by code_simp+
  have 7: "internal_isOpen pending_world 1 \<and> fst (getStore 1 ''s'' pending_world) = Inr (Handle 2) \<and>
           internal_getStore pending_world ''s'' =
             Some (StoreInfo \<lparr>sd_schema = demo_schema ! 0, sd_data = 0\<rparr>) \<and>
           formListOfSerializedKeys demo_codec (JStr ''c'')
             (st_primaryKeyPath (sd_schema \<lparr>sd_schema = demo_schema ! 0, sd_data = 0\<rparr>)) = Inr [''Cc''] \<and>
           ''Cc'' \<in> set [''Cc''] \<and>
           serializeKeyToString demo_codec (JStr ''c'')
             (st_primaryKeyPath (sd_schema \<lparr>sd_schema = demo_schema ! 0, sd_data = 0\<rparr>)) = Inr ''Cc'' \<and>
           ''s'' \<in> set [''s'']"
    by code_simp
  have 8: "next_transaction_get demo_codec [''s''] False ''s'' (JStr ''c'') pending_world =
             Inr (row ''c'' [JStr ''y''])"
    by code_simp
  note t = commit_replays_pending_changes[OF 1 2 3 4, where name = "''s''" and s = 2
      and sd = "\<lparr>sd_schema = demo_schema ! 0, sd_data = 0\<rparr>" and cd = demo_codec
      and keyOrKeys = "JStr ''c''" and ks = "[''Cc'']" and k = "''Cc''" and key = "JStr ''c''"
      and names = "[''s'']" and writeNeeded = False]
  from t have a: "\<forall>e\<in>set (t_stores (transactions pending_world ! 1)).
            pendingCommitDataChanges (store_objs (fire 1 pending_world) ! snd e) = None \<and>
            mergedData (store_objs (fire 1 pending_world) ! snd e) =
              committedStoreData (store_objs pending_world ! snd e) \<and>
            (\<forall>k. map_of (heap (fire 1 pending_world) ! committedStoreData (store_objs pending_world ! snd e)) k =
               (case pendingCommitDataChanges (store_objs pending_world ! snd e) of
                  None \<Rightarrow> map_of (heap pending_world ! committedStoreData (store_objs pending_world ! snd e)) k
                | Some p \<Rightarrow>
                    (case map_of p k of
                       None \<Rightarrow> map_of (heap pending_world ! committedStoreData (store_objs pending_world ! snd e)) k
                     | Some v \<Rightarrow> if v = JUndefined then None else Some v)))"
    by blast
  from a[rule_format, OF 5] 6 have b:
    "pendingCommitDataChanges (store_objs (fire 1 pending_world) ! 2) = None"
    "mergedData (store_objs (fire 1 pending_world) ! 2) = 0"
    "\<And>k. map_of (heap (fire 1 pending_world) ! 0) k =
       (case map_of [(''Cz'', row ''z'' []), (''Ca'', JUndefined)] k of
          None \<Rightarrow> map_of (heap pending_world ! 0) k
        | Some v \<Rightarrow> if v = JUndefined then None else Some v)"
    by simp_all
  from t 7 have c:
    "fst (remove demo_codec 2 (JStr ''c'') (snd (getStore 1 ''s'' pending_world))) = Inr ()"
    "next_transaction_get demo_codec [''s''] False ''s'' (JStr ''c'')
       (fire 1 (snd (remove demo_codec 2 (JStr ''c'') (snd (getStore 1 ''s'' pending_world))))) = Inr JUndefined"
    by blast+
  from b(3)[of "''Cz''"] b(3)[of "''Ca''"] b(3)[of "''Cb''"] 6(3) have d:
    "map_of (heap (fire 1 pending_world) ! 0) ''Cz'' = Some (row ''z'' [])"
    "map_of (heap (fire 1 pending_world) ! 0) ''Ca'' = None"
    "map_of (heap (fire 1 pending_world) ! 0) ''Cb'' = Some (row ''b'' [JStr ''x'', JStr ''y''])"
    by (simp_all add: row_def)
  from 6(1) b(1,2) c d 8 show ?thesis by simp
qed

section \<open>The dictionaries of the heap\<close>

lemma list_all_update:
  "list_all P xs \<Longrightarrow> (i < length xs \<Longrightarrow> P y) \<Longrightarrow> list_all P (xs[i := y])"
  by (cases "i < length xs") (auto simp: list_all_length nth_list_update)

lemma wf_heap_nth: "wf_heap w \<Longrightarrow> a < length (heap w) \<Longrightarrow> distinct (dict_keys (heap w ! a))"
  by (simp add: wf_heap_def list_all_length)

lemma distinct_dict_delete: "distinct (dict_keys d) \<Longrightarrow> distinct (dict_keys (dict_delete k d))"
  by (simp add: dict_keys_def dict_delete_def distinct_delete)

lemma distinct_replay: "distinct (dict_keys c) \<Longrightarrow> distinct (dict_keys (replay e c))"
  by (simp add: replay_def distinct_dict_set distinct_dict_delete)

lemma distinct_fold_replay: "distinct (dict_keys c) \<Longrightarrow> distinct (dict_keys (fold replay p c))"
  by (induction p arbitrary: c) (simp_all add: distinct_replay)

lemma checkDataClone_heap:
  assumes "wf w" and "s < length (store_objs w)" and "wf_heap w"
  shows "wf_heap (checkDataClone s w)"
proof (cases "pendingCommitDataChanges (store_objs w ! s)")
  case (Some p)
  with assms(3) show ?thesis by (simp add: checkDataClone_forked)
next
  case None
  from wf_heap_nth[OF assms(3) wf_committedD(2)[OF assms(1,2)]] assms(3) show ?thesis
    by (simp add: checkDataClone_unforked[OF None] wf_heap_def)
qed

lemma wf_heap_update:
  assumes "wf_heap w" and "heap w' = (heap w)[a := f (heap w ! a)]"
    and "\<And>d. distinct (dict_keys d) \<Longrightarrow> distinct (dict_keys (f d))"
  shows "wf_heap w'"
proof -
  have "list_all (\<lambda>d. distinct (dict_keys d)) ((heap w)[a := f (heap w ! a)])"
    using assms(1,3) by (intro list_all_update) (simp_all add: wf_heap_def list_all_length)
  then show ?thesis by (simp add: wf_heap_def assms(2))
qed

lemma put_key_heap: "wf_heap w \<Longrightarrow> wf_heap (put_key s k r w)"
  by (erule wf_heap_update[where f = "dict_set k r"])
     (simp_all add: put_key_def Let_def distinct_dict_set)

lemma remove_key_heap: "wf_heap w \<Longrightarrow> wf_heap (remove_key s k w)"
  by (erule wf_heap_update[where f = "dict_delete k"])
     (simp_all add: remove_key_def Let_def distinct_dict_delete)

lemma put_items_heap: "wf_heap w \<Longrightarrow> wf_heap (snd (put_items cd s items w))"
  by (induction items arbitrary: w) (simp_all add: put_key_heap split: sum.splits)

lemma fold_remove_key_heap: "wf_heap w \<Longrightarrow> wf_heap (fold (remove_key s) ks w)"
  by (induction ks arbitrary: w) (simp_all add: remove_key_heap)

lemma commit_heap_dicts:
  assumes "wf_heap w"
  shows "wf_heap (internal_commitPendingData s w)"
proof (cases "pendingCommitDataChanges (store_objs w ! s)")
  case None
  with assms show ?thesis by (simp add: wf_heap_def commit_heap)
next
  case (Some p)
  show ?thesis
    by (rule wf_heap_update[OF assms, where f = "fold replay p"])
       (simp_all add: commit_heap Some distinct_fold_replay)
qed

lemma fold_commit_heap_dicts: "wf_heap w \<Longrightarrow> wf_heap (fold internal_commitPendingData ss w)"
  by (induction ss arbitrary: w) (simp_all add: commit_heap_dicts)

lemma wf_heap_cong: "heap w' = heap w \<Longrightarrow> wf_heap w' = wf_heap w"
  by (simp add: wf_heap_def)

lemma fire_heap_dicts: "wf_heap w \<Longrightarrow> wf_heap (fire t w)"
proof (cases "\<exists>h. openTimer (transactions w ! t) = Some h \<and> h \<in> set (timers w)")
  case False
  assume "wf_heap w"
  with False show ?thesis by (auto simp: fire_def split: option.splits)
next
  case True
  assume a: "wf_heap w"
  from True obtain h where h: "openTimer (transactions w ! t) = Some h" "h \<in> set (timers w)" by blast
  let ?w1 = "w\<lparr>timers := removeAll h (timers w),
               transactions := (transactions w)[t := (transactions w ! t)\<lparr>openTimer := None\<rparr>]\<rparr>"
  have "wf_heap ?w1" using a by (simp add: wf_heap_def)
  then have "wf_heap (commitTransaction t ?w1)"
    unfolding commitTransaction_def by (rule fold_commit_heap_dicts)
  then show ?thesis using h by (simp add: fire_def Let_def wf_heap_def)
qed

lemma exec_heap_dicts:
  assumes "wf w" and "wf_heap w"
  shows "wf_heap (exec cd op w)"
proof (cases op)
  case (OpenTransaction names writeNeeded)
  with assms(2) show ?thesis by (simp add: wf_heap_def)
next
  case (GetStore t name)
  with assms(2) show ?thesis by (simp add: wf_heap_def)
next
  case (Abort t)
  with assms(2) show ?thesis by (simp add: wf_heap_def)
next
  case (Fire t)
  with assms(2) show ?thesis by (simp add: fire_heap_dicts)
next
  case (Put s v)
  show ?thesis
  proof (cases "s < length (store_objs w)")
    case True
    from put_items_heap[OF checkDataClone_heap[OF assms(1) True assms(2)]] assms(2) Put True
    show ?thesis by (simp add: put_def)
  qed (simp add: Put assms(2))
next
  case (Remove s v)
  show ?thesis
  proof (cases "s < length (store_objs w)")
    case True
    from fold_remove_key_heap[OF checkDataClone_heap[OF assms(1) True assms(2)]]
      checkDataClone_heap[OF assms(1) True assms(2)] assms(2) Remove True
    show ?thesis by (simp add: remove_def Let_def split: sum.splits)
  qed (simp add: Remove assms(2))
next
  case (ClearAllData s)
  show ?thesis
  proof (cases "s < length (store_objs w)")
    case True
    from checkDataClone_heap[OF assms(1) True assms(2)] assms(2) ClearAllData True
    show ?thesis by (simp add: clearAllData_def Let_def wf_heap_def dict_keys_def)
  qed (simp add: ClearAllData assms(2))
next
  case (OpenPrimaryKey s)
  show ?thesis
  proof (cases "s < length (store_objs w)")
    case True
    from checkDataClone_heap[OF assms(1) True assms(2)] OpenPrimaryKey True
    show ?thesis by (simp add: openPrimaryKey_def Let_def)
  qed (simp add: OpenPrimaryKey assms(2))
next
  case (OpenIndex s indexName)
  show ?thesis
  proof (cases "s < length (store_objs w)")
    case True
    from checkDataClone_heap[OF assms(1) True assms(2)] assms(2) OpenIndex True
    show ?thesis by (simp add: openIndex_def Let_def split: option.splits)
  qed (simp add: OpenIndex assms(2))
qed

lemma run_heap_dicts: "wf w \<Longrightarrow> wf_heap w \<Longrightarrow> wf_heap (run cd ops w)"
  by (induction ops arbitrary: w) (simp_all add: run_Nil run_Cons exec_wf exec_heap_dicts)

lemma open_provider_heap_dicts: "wf_heap w \<Longrightarrow> wf_heap (open_provider schema w)"
  unfolding open_provider_def
  by (induction schema arbitrary: w) (simp_all add: open_store_def wf_heap_def dict_keys_def)

text \<open>In every reachable state, every allocated dictionary has each key once.\<close>

lemma reachable_dictionaries:
  assumes "a < length (heap (run cd ops (open_provider schema new_provider)))"
  shows "distinct (dict_keys (heap (run cd ops (open_provider schema new_provider)) ! a))"
proof -
  have "wf_heap new_provider" by (simp add: wf_heap_def new_provider_def)
  then have "wf_heap (run cd ops (open_provider schema new_provider))"
    by (intro run_heap_dicts wf_open_provider open_provider_heap_dicts)
  then show ?thesis using assms by (rule wf_heap_nth)
qed

end
